theory Spec2Isabelle
  imports Main "HOL-Library.Sublist"
begin

section \<open>The rotating file logger of lib/glibUtils/fileLogger.c\<close>

text \<open>
  The theory embeds four functions of \<^verbatim>\<open>fileLogger.c\<close>:
  \<^verbatim>\<open>FileLoggerGetPath\<close>, \<^verbatim>\<open>FileLoggerOpen\<close>, \<^verbatim>\<open>FileLoggerLog\<close> and
  \<^verbatim>\<open>GlibUtils_CreateFileLogger\<close>. \<^verbatim>\<open>FileLoggerDestroy\<close>, which closes the file and
  frees the logger, is left out.

  Conventions.
  \<^item> A C string is a \<open>string\<close> (it never holds the NUL character); a pointer into a
    string is an offset, a \<open>NULL\<close> result is \<open>None\<close>.
  \<^item> \<open>gint\<close> is an \<open>int\<close> kept in the 32-bit two's complement range by \<open>to_gint\<close>;
    \<open>guint\<close> and \<open>guint64\<close> are naturals, reduced modulo \<open>2 ^ 32\<close> and \<open>2 ^ 64\<close>
    where the C arithmetic or a conversion does it.
  \<^item> The file system is a map from path names to nodes, threaded through every
    function that touches the disk. The C library and GLib calls of the source
    (\<^verbatim>\<open>g_file_test\<close>, \<^verbatim>\<open>g_stat\<close>, \<^verbatim>\<open>g_unlink\<close>, \<^verbatim>\<open>g_rename\<close>, \<^verbatim>\<open>g_fopen\<close>,
    \<^verbatim>\<open>fputs\<close>, \<^verbatim>\<open>fflush\<close>, \<^verbatim>\<open>fclose\<close>) are modelled on that map; nothing else
    changes it. A stream is buffered: \<^verbatim>\<open>fputs\<close> puts bytes into the buffer, \<^verbatim>\<open>fflush\<close>
    and \<^verbatim>\<open>fclose\<close> write them to the file, and the source drops the results of both.
  \<^item> A function returns \<open>None\<close> where the C code does not return a defined result:
    the substitution loop of \<^verbatim>\<open>FileLoggerGetPath\<close> may run forever, and the
    renaming loop of \<^verbatim>\<open>FileLoggerOpen\<close> reads outside its array when the array is
    empty.
  \<^item> The reader/writer lock is not modelled: one call runs at a time. The second
    test of the guarded condition, made after the writer lock is taken, is kept where
    the source has it.
\<close>

subsection \<open>Machine integers\<close>

definition to_gint :: "int \<Rightarrow> int" where
  \<comment> \<open>conversion to \<^verbatim>\<open>gint\<close>: the value modulo \<open>2 ^ 32\<close>, read as two's complement\<close>
  "to_gint x = (x + 2 ^ 31) mod 2 ^ 32 - 2 ^ 31"

definition to_guint64 :: "int \<Rightarrow> nat" where
  \<comment> \<open>conversion of a \<^verbatim>\<open>gint\<close> to \<^verbatim>\<open>guint64\<close>, as the comparison with \<^verbatim>\<open>maxSize\<close> does\<close>
  "to_guint64 x = nat (x mod 2 ^ 64)"

subsection \<open>String primitives\<close>

fun strstr :: "string \<Rightarrow> string \<Rightarrow> nat option" where
  \<comment> \<open>offset of the first occurrence of the needle in the haystack\<close>
  "strstr [] needle = (if needle = [] then Some 0 else None)"
| "strstr (c # cs) needle =
     (if prefix needle (c # cs) then Some 0 else map_option Suc (strstr cs needle))"

fun strrchr :: "string \<Rightarrow> char \<Rightarrow> nat option" where
  \<comment> \<open>offset of the last occurrence of a character\<close>
  "strrchr [] ch = None"
| "strrchr (c # cs) ch =
     (case strrchr cs ch of
        Some i \<Rightarrow> Some (Suc i)
      | None \<Rightarrow> (if c = ch then Some 0 else None))"

definition digit_char :: "nat \<Rightarrow> char" where
  "digit_char d = ''0123456789'' ! d"

function print_u :: "nat \<Rightarrow> string" where
  \<comment> \<open>the conversion \<^verbatim>\<open>%u\<close>\<close>
  "print_u n = (if n < 10 then [digit_char n] else print_u (n div 10) @ [digit_char (n mod 10)])"
  by pat_completeness auto
termination
  by (relation "measure id") auto

declare print_u.simps [simp del]

definition print_d :: "int \<Rightarrow> string" where
  \<comment> \<open>the conversion \<^verbatim>\<open>%d\<close>\<close>
  "print_d i = (if i < 0 then ''-'' @ print_u (nat (- i)) else print_u (nat i))"

definition backslash :: char where
  "backslash = CHR 0x5C"

subsection \<open>Data\<close>

text \<open>
  What the process reads from its surroundings: the result of \<^verbatim>\<open>g_get_user_name()\<close>,
  the value of \<^verbatim>\<open>(unsigned int) getpid()\<close>, and whether \<^verbatim>\<open>_WIN32\<close> is defined.
\<close>

record env =
  user :: string
  pid :: nat
  win32 :: bool

text \<open>
  \<^verbatim>\<open>struct FileLogger\<close>. An open \<^verbatim>\<open>FILE *\<close> is the path it was opened on. The
  field \<^verbatim>\<open>file\<close> is \<open>file_ptr\<close> and the field \<^verbatim>\<open>append\<close> is \<open>append_flag\<close>; the
  handler and the lock are left out.
\<close>

record FileLogger =
  file_ptr :: "string option"
  path :: string
  logSize :: int
  maxSize :: nat
  maxFiles :: nat
  append_flag :: bool
  error :: bool

text \<open>
  The disk and the C library. A directory carries the \<^verbatim>\<open>st_size\<close> that \<^verbatim>\<open>g_stat\<close>
  reports for it. \<open>denied\<close> holds of the paths that \<^verbatim>\<open>g_fopen\<close> cannot open for writing
  (missing parent directory, permissions). \<open>full\<close> says that the device takes no more
  bytes: what a stream writes to a file is lost. \<open>bufsiz\<close> is the size of the buffer of
  a stream.
\<close>

datatype node = Regular string | Directory nat

record world =
  files :: "string \<rightharpoonup> node"
  denied :: "string \<Rightarrow> bool"
  full :: bool
  bufsiz :: nat

datatype fmode = ModeA | ModeW

subsection \<open>The library calls\<close>

definition g_file_test_exists :: "world \<Rightarrow> string \<Rightarrow> bool" where
  "g_file_test_exists w p = (case files w p of None \<Rightarrow> False | Some n \<Rightarrow> True)"

definition g_file_test_is_regular :: "world \<Rightarrow> string \<Rightarrow> bool" where
  "g_file_test_is_regular w p =
     (case files w p of Some (Regular c) \<Rightarrow> True | Some (Directory s) \<Rightarrow> False | None \<Rightarrow> False)"

definition g_file_test_is_dir :: "world \<Rightarrow> string \<Rightarrow> bool" where
  "g_file_test_is_dir w p =
     (case files w p of Some (Regular c) \<Rightarrow> False | Some (Directory s) \<Rightarrow> True | None \<Rightarrow> False)"

definition g_stat :: "world \<Rightarrow> string \<Rightarrow> nat option" where
  \<comment> \<open>\<^verbatim>\<open>st_size\<close>, or \<open>None\<close> for the result \<open>-1\<close>\<close>
  "g_stat w p =
     (case files w p of
        Some (Regular c) \<Rightarrow> Some (length c)
      | Some (Directory s) \<Rightarrow> Some s
      | None \<Rightarrow> None)"

definition g_unlink :: "world \<Rightarrow> string \<Rightarrow> bool \<times> world" where
  \<comment> \<open>the flag says that the result is 0; only a regular file can be unlinked\<close>
  "g_unlink w p =
     (case files w p of
        Some (Regular c) \<Rightarrow> (True, w\<lparr>files := (files w)(p := None)\<rparr>)
      | Some (Directory s) \<Rightarrow> (False, w)
      | None \<Rightarrow> (False, w))"

definition g_rename :: "world \<Rightarrow> string \<Rightarrow> string \<Rightarrow> world" where
  \<comment> \<open>the source ignores the result; a directory is never replaced, and replaces nothing\<close>
  "g_rename w src dest =
     (case files w src of
        None \<Rightarrow> w
      | Some n \<Rightarrow>
          (case files w dest of
             None \<Rightarrow> w\<lparr>files := (files w)(src := None, dest \<mapsto> n)\<rparr>
           | Some (Regular c) \<Rightarrow>
               (case n of
                  Regular c' \<Rightarrow> w\<lparr>files := (files w)(src := None, dest \<mapsto> n)\<rparr>
                | Directory s \<Rightarrow> w)
           | Some (Directory s) \<Rightarrow> w))"

definition g_fopen :: "world \<Rightarrow> string \<Rightarrow> fmode \<Rightarrow> string option \<times> world" where
  \<comment> \<open>mode \<^verbatim>\<open>"a"\<close> keeps an existing file, mode \<^verbatim>\<open>"w"\<close> truncates it; both create a missing one\<close>
  "g_fopen w p m =
     (if denied w p then (None, w)
      else case files w p of
        Some (Directory s) \<Rightarrow> (None, w)
      | Some (Regular c) \<Rightarrow>
          (Some p, case m of ModeA \<Rightarrow> w | ModeW \<Rightarrow> w\<lparr>files := (files w)(p \<mapsto> Regular [])\<rparr>)
      | None \<Rightarrow> (Some p, w\<lparr>files := (files w)(p \<mapsto> Regular [])\<rparr>))"

text \<open>
  The stream of the log file. \<^verbatim>\<open>FileLoggerLog\<close> calls \<^verbatim>\<open>fflush\<close> or \<^verbatim>\<open>fclose\<close> after
  every \<^verbatim>\<open>fputs\<close> that succeeds, so the buffer is empty when \<^verbatim>\<open>fputs\<close> is called, and
  the bytes in the buffer are a value that \<^verbatim>\<open>fputs\<close> hands to \<^verbatim>\<open>fflush\<close> or \<^verbatim>\<open>fclose\<close>.
  \<^item> \<^verbatim>\<open>g_fopen\<close> opens the stream in text mode: under \<^verbatim>\<open>_WIN32\<close> a line feed is written
    as carriage return and line feed.
  \<^item> \<^verbatim>\<open>fputs\<close> only fills the buffer when the bytes fit; it writes to the file itself,
    and so can fail, when they do not. It does that on a full device.
  \<^item> \<^verbatim>\<open>fflush\<close> and \<^verbatim>\<open>fclose\<close> write the buffer to the file; on a full device the
    bytes are lost, and the result that says so is dropped by the source.
\<close>

definition text_mode :: "env \<Rightarrow> string \<Rightarrow> string" where
  \<comment> \<open>the bytes that a text-mode stream writes for a string\<close>
  "text_mode e message =
     (if win32 e
      then concat (map (\<lambda>c. if c = CHR 0x0A then [CHR 0x0D, CHR 0x0A] else [c]) message)
      else message)"

definition fputs :: "env \<Rightarrow> world \<Rightarrow> string \<Rightarrow> string \<Rightarrow> bool \<times> string" where
  \<comment> \<open>the flag says that the result is not negative; the string is what the buffer holds
      afterwards\<close>
  "fputs e w h message =
     (case files w h of
        Some (Regular c) \<Rightarrow>
          (if full w \<and> bufsiz w \<le> length (text_mode e message) then (False, [])
           else (True, text_mode e message))
      | Some (Directory s) \<Rightarrow> (False, [])
      | None \<Rightarrow> (False, []))"

definition fflush :: "world \<Rightarrow> string \<Rightarrow> string \<Rightarrow> world" where
  \<comment> \<open>writes the buffer \<open>buf\<close> of the stream to its file; the source drops the result\<close>
  "fflush w h buf =
     (case files w h of
        Some (Regular c) \<Rightarrow>
          (if full w then w else w\<lparr>files := (files w)(h \<mapsto> Regular (c @ buf))\<rparr>)
      | Some (Directory s) \<Rightarrow> w
      | None \<Rightarrow> w)"

definition fclose :: "world \<Rightarrow> string \<Rightarrow> string \<Rightarrow> world" where
  \<comment> \<open>writes the buffer as \<^verbatim>\<open>fflush\<close> does, then closes; the source drops the result\<close>
  "fclose w h buf = fflush w h buf"

subsection \<open>FileLoggerGetPath\<close>

text \<open>
  The inner \<^verbatim>\<open>while\<close> loop of \<^verbatim>\<open>FileLoggerGetPath\<close> for one variable. \<open>lasto\<close> is
  the offset of the pointer \<^verbatim>\<open>last\<close> in \<open>logpath\<close>, \<open>k\<close> is \<^verbatim>\<open>start - last\<close>. The new
  offset is \<^verbatim>\<open>(start - last) + strlen(vars[i+1])\<close>, as in the source. The flag records
  that the body ran (the source sets \<^verbatim>\<open>hasIndex\<close> there for the third variable).
\<close>

partial_function (option) expand_var ::
  "string \<Rightarrow> string \<Rightarrow> string \<Rightarrow> nat \<Rightarrow> bool \<Rightarrow> (string \<times> bool) option" where
  "expand_var var val logpath lasto found =
     (case strstr (drop lasto logpath) var of
        None \<Rightarrow> Some (logpath, found)
      | Some k \<Rightarrow>
          expand_var var val
            (take (lasto + k) logpath @ val @ drop (lasto + k + length var) logpath)
            (k + length val) True)"

declare expand_var.simps [code]

definition add_index :: "string \<Rightarrow> int \<Rightarrow> string" where
  \<comment> \<open>the block under \<^verbatim>\<open>if (index != 0 && !hasIndex)\<close>; a pointer that is not
      \<^verbatim>\<open>NULL\<close> compares greater than \<^verbatim>\<open>NULL\<close>\<close>
  "add_index logpath index =
     (let sep = strrchr logpath (CHR ''.'');
          pathsep = (case strrchr logpath (CHR ''/'') of
                       None \<Rightarrow> strrchr logpath backslash
                     | Some j \<Rightarrow> Some j)
      in case sep of
           None \<Rightarrow> logpath @ ''.'' @ print_d index
         | Some i \<Rightarrow>
             (if (case pathsep of None \<Rightarrow> True | Some j \<Rightarrow> j < i)
              then take i logpath @ ''.'' @ print_d index @ ''.'' @ drop (Suc i) logpath
              else logpath @ ''.'' @ print_d index))"

definition FileLoggerGetPath :: "env \<Rightarrow> FileLogger \<Rightarrow> int \<Rightarrow> string option" where
  \<comment> \<open>\<^verbatim>\<open>indexStr\<close> has 11 bytes, so \<^verbatim>\<open>g_snprintf\<close> keeps at most 10 characters\<close>
  "FileLoggerGetPath e data index =
     (let indexStr = take 10 (print_d index) in
      case expand_var ''${USER}'' (user e) (path data) 0 False of
        None \<Rightarrow> None
      | Some (p1, f1) \<Rightarrow>
      case expand_var ''${PID}'' (print_u (pid e)) p1 0 False of
        None \<Rightarrow> None
      | Some (p2, f2) \<Rightarrow>
      case expand_var ''${IDX}'' indexStr p2 0 False of
        None \<Rightarrow> None
      | Some (p3, hasIndex) \<Rightarrow>
          Some (if index \<noteq> 0 \<and> \<not> hasIndex then add_index p3 index else p3))"

subsection \<open>FileLoggerOpen\<close>

text \<open>
  The first \<^verbatim>\<open>for\<close> loop: the paths of the log files, from index \<open>idn\<close> (the
  counter \<^verbatim>\<open>id\<close>) on, up to and including the first one that is not a regular file.
  The \<^verbatim>\<open>guint\<close> counter is converted to the \<^verbatim>\<open>gint\<close> parameter of
  \<^verbatim>\<open>FileLoggerGetPath\<close>.
\<close>

function find_logfiles ::
  "env \<Rightarrow> FileLogger \<Rightarrow> world \<Rightarrow> nat \<Rightarrow> string list \<Rightarrow> string list option" where
  "find_logfiles e data w idn logfiles =
     (if idn < maxFiles data then
        (case FileLoggerGetPath e data (to_gint (int idn)) of
           None \<Rightarrow> None
         | Some log \<Rightarrow>
             (if \<not> g_file_test_is_regular w log then Some (logfiles @ [log])
              else find_logfiles e data w (Suc idn) (logfiles @ [log])))
      else Some logfiles)"
  by pat_completeness auto
termination
  by (relation "measure (\<lambda>(e, data, w, idn, logfiles). maxFiles data - idn)") auto

declare find_logfiles.simps [simp del]

definition shift_logfile :: "world \<Rightarrow> string \<Rightarrow> string \<Rightarrow> world" where
  \<comment> \<open>the body of the second loop; \<^verbatim>\<open>g_unlink(dest)\<close> runs only when \<open>dest\<close> exists
      and is no directory\<close>
  "shift_logfile w dest src =
     (if g_file_test_is_dir w dest then snd (g_unlink w src)
      else if \<not> g_file_test_exists w dest then g_rename w src dest
      else (case g_unlink w dest of
              (True, w') \<Rightarrow> g_rename w' src dest
            | (False, w') \<Rightarrow> snd (g_unlink w' src)))"

fun rename_logfiles :: "world \<Rightarrow> string list \<Rightarrow> nat \<Rightarrow> world" where
  \<comment> \<open>the second loop, with the counter \<^verbatim>\<open>id\<close> from the given value down to 1\<close>
  "rename_logfiles w logfiles 0 = w"
| "rename_logfiles w logfiles (Suc n) =
     rename_logfiles (shift_logfile w (logfiles ! Suc n) (logfiles ! n)) logfiles n"

definition rotate_logfiles :: "env \<Rightarrow> FileLogger \<Rightarrow> world \<Rightarrow> world option" where
  \<comment> \<open>both loops; with an empty array \<^verbatim>\<open>logfiles->len - 1\<close> wraps around and the
      second loop reads outside the array\<close>
  "rotate_logfiles e data w =
     (case find_logfiles e data w 0 [] of
        None \<Rightarrow> None
      | Some logfiles \<Rightarrow>
          (if logfiles = [] then None
           else Some (rename_logfiles w logfiles (length logfiles - 1))))"

definition FileLoggerOpen ::
  "env \<Rightarrow> FileLogger \<Rightarrow> world \<Rightarrow> (string option \<times> FileLogger \<times> world) option" where
  \<comment> \<open>the result is the returned \<^verbatim>\<open>FILE *\<close>, the logger as the call leaves it, and the disk\<close>
  "FileLoggerOpen e data w =
     (case FileLoggerGetPath e data 0 of
        None \<Rightarrow> None
      | Some p \<Rightarrow>
          (case
             (if g_file_test_exists w p then
                (let data1 = (case g_stat w p of
                                Some sz \<Rightarrow> data\<lparr>logSize := to_gint (int sz)\<rparr>
                              | None \<Rightarrow> data)
                 in if \<not> append_flag data1 \<or> maxSize data1 \<le> to_guint64 (logSize data1) then
                      (case rotate_logfiles e data1 w of
                         None \<Rightarrow> None
                       | Some w1 \<Rightarrow> Some (data1\<lparr>logSize := 0, append_flag := False\<rparr>, w1))
                    else Some (data1, w))
              else Some (data, w))
           of
             None \<Rightarrow> None
           | Some (data2, w2) \<Rightarrow>
               (case g_fopen w2 p (if append_flag data2 then ModeA else ModeW) of
                  (logfile, w3) \<Rightarrow> Some (logfile, data2, w3))))"

subsection \<open>FileLoggerLog\<close>

definition open_if_needed :: "env \<Rightarrow> FileLogger \<Rightarrow> world \<Rightarrow> (FileLogger \<times> world) option" where
  \<comment> \<open>\<^verbatim>\<open>if (logger->file == NULL) logger->file = FileLoggerOpen(data);\<close> under the writer lock\<close>
  "open_if_needed e logger w =
     (if file_ptr logger = None then
        (case FileLoggerOpen e logger w of
           None \<Rightarrow> None
         | Some (logfile, logger', w') \<Rightarrow> Some (logger'\<lparr>file_ptr := logfile\<rparr>, w'))
      else Some (logger, w))"

definition reopen_if_full ::
  "env \<Rightarrow> FileLogger \<Rightarrow> world \<Rightarrow> string \<Rightarrow> string \<Rightarrow> (FileLogger \<times> world) option" where
  \<comment> \<open>the second test of the size under the writer lock, then \<^verbatim>\<open>fclose\<close> of the stream
      \<open>h\<close> with the buffer \<open>buf\<close>, \<^verbatim>\<open>append = FALSE\<close> and \<^verbatim>\<open>FileLoggerOpen\<close>. Where the
      second test fails the source calls neither \<^verbatim>\<open>fflush\<close> nor \<^verbatim>\<open>fclose\<close> and the disk
      stays as it is; \<^verbatim>\<open>FileLoggerLog\<close> has just made the same test, so with one call
      at a time that branch is not taken.\<close>
  "reopen_if_full e logger w h buf =
     (if maxSize logger \<le> to_guint64 (logSize logger) then
        (case FileLoggerOpen e (logger\<lparr>append_flag := False\<rparr>) (fclose w h buf) of
           None \<Rightarrow> None
         | Some (logfile, logger', w') \<Rightarrow> Some (logger'\<lparr>file_ptr := logfile\<rparr>, w'))
      else Some (logger, w))"

definition account :: "env \<Rightarrow> string \<Rightarrow> FileLogger \<Rightarrow> FileLogger" where
  \<comment> \<open>the two \<^verbatim>\<open>g_atomic_int_add\<close> calls; the second one only under \<^verbatim>\<open>_WIN32\<close>\<close>
  "account e message logger =
     (let l1 = logger\<lparr>logSize := to_gint (logSize logger + to_gint (int (length message)))\<rparr>
      in if win32 e then l1\<lparr>logSize := to_gint (logSize l1 + 1)\<rparr> else l1)"

definition FileLoggerLog ::
  "env \<Rightarrow> string \<Rightarrow> FileLogger \<Rightarrow> world \<Rightarrow> (FileLogger \<times> world) option" where
  "FileLoggerLog e message logger w =
     (if error logger then Some (logger, w)
      else
        (case (if file_ptr logger = None then open_if_needed e logger w else Some (logger, w)) of
           None \<Rightarrow> None
         | Some (logger1, w1) \<Rightarrow>
             (case file_ptr logger1 of
                None \<Rightarrow> Some (logger1\<lparr>error := True\<rparr>, w1)
              | Some h \<Rightarrow>
                  (case fputs e w1 h message of
                     (False, buf) \<Rightarrow> Some (logger1, w1)
                   | (True, buf) \<Rightarrow>
                       (if 0 < maxSize logger1 then
                          (let logger2 = account e message logger1
                           in if maxSize logger2 \<le> to_guint64 (logSize logger2)
                              then reopen_if_full e logger2 w1 h buf
                              else Some (logger2, fflush w1 h buf))
                        else Some (logger1, fflush w1 h buf))))))"

fun FileLoggerLog_all ::
  "env \<Rightarrow> string list \<Rightarrow> FileLogger \<Rightarrow> world \<Rightarrow> (FileLogger \<times> world) option" where
  \<comment> \<open>one call of \<^verbatim>\<open>FileLoggerLog\<close> after the other\<close>
  "FileLoggerLog_all e [] logger w = Some (logger, w)"
| "FileLoggerLog_all e (m # ms) logger w =
     (case FileLoggerLog e m logger w of
        None \<Rightarrow> None
      | Some (logger', w') \<Rightarrow> FileLoggerLog_all e ms logger' w')"

subsection \<open>GlibUtils_CreateFileLogger\<close>

text \<open>
  The arguments \<^verbatim>\<open>maxSize\<close> and \<^verbatim>\<open>maxFiles\<close> are \<^verbatim>\<open>guint\<close>: naturals below \<open>2 ^ 32\<close>.
  The product and the sum are formed in \<^verbatim>\<open>guint\<close> and then stored. The conversion
  \<^verbatim>\<open>g_filename_from_utf8\<close> is a parameter; \<open>None\<close> is its \<^verbatim>\<open>NULL\<close>, and the \<^verbatim>\<open>NULL\<close> that
  the function returns for it.
\<close>

definition GlibUtils_CreateFileLogger ::
  "(string \<Rightarrow> string option) \<Rightarrow> string \<Rightarrow> bool \<Rightarrow> nat \<Rightarrow> nat \<Rightarrow> FileLogger option" where
  "GlibUtils_CreateFileLogger g_filename_from_utf8 path0 append0 maxSize0 maxFiles0 =
     (case g_filename_from_utf8 path0 of
        None \<Rightarrow> None
      | Some p \<Rightarrow>
          Some \<lparr> file_ptr = None,
                 path = p,
                 logSize = 0,
                 maxSize = (maxSize0 * 1024 * 1024) mod 2 ^ 32,
                 maxFiles = (maxFiles0 + 1) mod 2 ^ 32,
                 append_flag = append0,
                 error = False \<rparr>)"

section \<open>Notions used in the statements\<close>

subsection \<open>What the specification says about path expansion\<close>

text \<open>
  "All occurrences of each variable are replaced": the string with every occurrence of
  \<open>var\<close>, found from left to right, replaced by \<open>val\<close>.
\<close>

function spec_replace_all :: "string \<Rightarrow> string \<Rightarrow> string \<Rightarrow> string" where
  "spec_replace_all var val [] = []"
| "spec_replace_all var val (c # cs) =
     (if var \<noteq> [] \<and> prefix var (c # cs)
      then val @ spec_replace_all var val (drop (length var) (c # cs))
      else c # spec_replace_all var val cs)"
  by pat_completeness auto
termination
  by (relation "measure (\<lambda>(var, val, s). length s)") auto

definition after_last :: "char \<Rightarrow> string \<Rightarrow> string" where
  \<comment> \<open>what follows the last occurrence of a character; the whole string if there is none\<close>
  "after_last ch p = rev (takeWhile (\<lambda>c. c \<noteq> ch) (rev p))"

text \<open>
  "Insert \<open>.{index}\<close> immediately before the last filename extension (the substring
  after the last \<open>.\<close> that occurs after the last path separator, supporting both \<open>/\<close>
  and \<open>\\<close> as separators). If no extension is found, append \<open>.{index}\<close>": here the
  file name is what follows the last character that is a slash or a backslash.
\<close>

definition spec_insert_index :: "string \<Rightarrow> int \<Rightarrow> string" where
  "spec_insert_index p index =
     (let name = rev (takeWhile (\<lambda>c. c \<noteq> CHR ''/'' \<and> c \<noteq> backslash) (rev p));
          ext = after_last (CHR ''.'') name
      in if CHR ''.'' \<in> set name
         then take (length p - Suc (length ext)) p @ ''.'' @ print_d index @ ''.'' @ ext
         else p @ ''.'' @ print_d index)"

subsection \<open>What the code does\<close>

definition sep_char :: "string \<Rightarrow> char" where
  \<comment> \<open>the separator that \<^verbatim>\<open>FileLoggerGetPath\<close> looks for: the slash if the path has one,
      else the backslash\<close>
  "sep_char p = (if CHR ''/'' \<in> set p then CHR ''/'' else backslash)"

definition safe_val :: "string \<Rightarrow> string \<Rightarrow> bool" where
  \<comment> \<open>a value that no occurrence of the variable can overlap: it does not start with a
      character of the variable, and does not hold the variable's first character\<close>
  "safe_val var val = (var \<noteq> [] \<and> val \<noteq> [] \<and> hd val \<notin> set var \<and> hd var \<notin> set val)"

definition value_chars :: "char set" where
  \<comment> \<open>the characters of a printed number\<close>
  "value_chars = set ''-0123456789''"

definition finish_path :: "env \<Rightarrow> string \<Rightarrow> int \<Rightarrow> string" where
  \<comment> \<open>the result of \<^verbatim>\<open>FileLoggerGetPath\<close> from the path \<open>p1\<close> that the loop for
      \<^verbatim>\<open>${USER}\<close> leaves\<close>
  "finish_path e p1 index =
     (let s = spec_replace_all ''${PID}'' (print_u (pid e)) p1
      in if strstr s ''${IDX}'' \<noteq> None
         then spec_replace_all ''${IDX}'' (take 10 (print_d index)) s
         else if index \<noteq> 0 then add_index s index else s)"

definition msg_size :: "env \<Rightarrow> string \<Rightarrow> int" where
  \<comment> \<open>what one message adds to \<^verbatim>\<open>logSize\<close>: its length, and 1 more under \<^verbatim>\<open>_WIN32\<close>\<close>
  "msg_size e message = int (length message) + (if win32 e then 1 else 0)"

definition disk :: "(string \<times> node) list \<Rightarrow> world" where
  \<comment> \<open>a disk that holds the listed nodes and nothing else, where nothing fails\<close>
  "disk ns = \<lparr>files = map_of ns, denied = (\<lambda>p. False), full = False, bufsiz = 4096\<rparr>"

section \<open>Evaluation\<close>

text \<open>The equations that run the model on a concrete logger and disk.\<close>

lemmas path_eval =
  FileLoggerGetPath_def expand_var.simps add_index_def print_d_def print_u.simps
  digit_char_def backslash_def Let_def

lemmas disk_eval =
  g_file_test_exists_def g_file_test_is_regular_def g_file_test_is_dir_def g_stat_def
  g_unlink_def g_rename_def g_fopen_def fputs_def fflush_def fclose_def text_mode_def

lemmas open_eval =
  FileLoggerOpen_def rotate_logfiles_def find_logfiles.simps shift_logfile_def
  to_gint_def to_guint64_def

lemmas log_eval =
  FileLoggerLog_def open_if_needed_def reopen_if_full_def account_def

lemma world_eqI:
  "(\<And>p. files w p = files w' p) \<Longrightarrow> denied w = denied w' \<Longrightarrow> full w = full w' \<Longrightarrow>
   bufsiz w = bufsiz w' \<Longrightarrow> (w :: world) = w'"
  by (cases w, cases w') (simp add: fun_eq_iff)

section \<open>Machine integers in range\<close>

lemma to_gint_0: "to_gint 0 = 0" by (simp add: to_gint_def)
lemma to_gint_id: "- (2 ^ 31) \<le> x \<Longrightarrow> x < 2 ^ 31 \<Longrightarrow> to_gint x = x"
  by (simp add: to_gint_def)
lemma to_guint64_nat: "0 \<le> x \<Longrightarrow> x < 2 ^ 31 \<Longrightarrow> to_guint64 x = nat x"
  by (simp add: to_guint64_def)

section \<open>The substitution loop\<close>

text \<open>
  \<open>strstr\<close> finds the first position where the needle is a prefix of what remains.
\<close>

lemma strstr_None_iff: "strstr s v = None \<longleftrightarrow> (\<forall>i\<le>length s. \<not> prefix v (drop i s))"
proof (induction s)
  case Nil
  then show ?case by simp
next
  case (Cons c cs)
  show ?case
  proof (cases "prefix v (c # cs)")
    case True
    then show ?thesis by (auto intro: exI [of _ 0])
  next
    case False
    have "(\<forall>i\<le>length (c # cs). \<not> prefix v (drop i (c # cs))) \<longleftrightarrow> (\<forall>i\<le>length cs. \<not> prefix v (drop i cs))"
    proof
      assume a: "\<forall>i\<le>length (c # cs). \<not> prefix v (drop i (c # cs))"
      show "\<forall>i\<le>length cs. \<not> prefix v (drop i cs)"
      proof (intro allI impI)
        fix i assume "i \<le> length cs"
        with a have "\<not> prefix v (drop (Suc i) (c # cs))" by (metis Suc_le_mono length_Cons)
        then show "\<not> prefix v (drop i cs)" by simp
      qed
    next
      assume a: "\<forall>i\<le>length cs. \<not> prefix v (drop i cs)"
      show "\<forall>i\<le>length (c # cs). \<not> prefix v (drop i (c # cs))"
      proof (intro allI impI)
        fix i assume "i \<le> length (c # cs)"
        then show "\<not> prefix v (drop i (c # cs))" using a False by (cases i) auto
      qed
    qed
    with Cons False show ?thesis by simp
  qed
qed

lemma strstr_Some_iff:
  "strstr s v = Some j \<longleftrightarrow> j \<le> length s \<and> prefix v (drop j s) \<and> (\<forall>i<j. \<not> prefix v (drop i s))"
proof (induction s arbitrary: j)
  case Nil
  then show ?case by auto
next
  case (Cons c cs)
  show ?case
  proof (cases "prefix v (c # cs)")
    case True
    then show ?thesis by (cases j) auto
  next
    case False
    show ?thesis
    proof (cases j)
      case 0
      with False show ?thesis by auto
    next
      case (Suc j')
      have "(\<forall>i<Suc j'. \<not> prefix v (drop i (c # cs))) \<longleftrightarrow> (\<forall>i<j'. \<not> prefix v (drop i cs))"
      proof
        assume a: "\<forall>i<Suc j'. \<not> prefix v (drop i (c # cs))"
        show "\<forall>i<j'. \<not> prefix v (drop i cs)"
        proof (intro allI impI)
          fix i assume "i < j'"
          with a have "\<not> prefix v (drop (Suc i) (c # cs))" by (metis Suc_less_eq)
          then show "\<not> prefix v (drop i cs)" by simp
        qed
      next
        assume a: "\<forall>i<j'. \<not> prefix v (drop i cs)"
        show "\<forall>i<Suc j'. \<not> prefix v (drop i (c # cs))"
        proof (intro allI impI)
          fix i assume "i < Suc j'"
          then show "\<not> prefix v (drop i (c # cs))" using a False by (cases i) auto
        qed
      qed
      with Cons [of j'] False Suc show ?thesis by auto
    qed
  qed
qed

lemma spec_replace_all_None:
  "strstr s v = None \<Longrightarrow> spec_replace_all v val s = s"
proof (induction s)
  case Nil
  then show ?case by simp
next
  case (Cons c cs)
  then show ?case by (auto split: if_splits)
qed

lemma spec_replace_all_Some:
  "v \<noteq> [] \<Longrightarrow> strstr s v = Some j \<Longrightarrow>
   spec_replace_all v val s = take j s @ val @ spec_replace_all v val (drop (j + length v) s)"
proof (induction s arbitrary: j)
  case Nil
  then show ?case by (simp split: if_splits)
next
  case (Cons c cs)
  show ?case
  proof (cases "prefix v (c # cs)")
    case True
    with Cons.prems show ?thesis by simp
  next
    case False
    with Cons.prems obtain j' where j': "strstr cs v = Some j'" "j = Suc j'" by auto
    with Cons.IH [OF Cons.prems(1) j'(1)] False show ?thesis by simp
  qed
qed

lemma prefix_stops_before_val:
  assumes "prefix v (xs @ val @ b)" and "val \<noteq> []" and "hd val \<notin> set v"
  shows "prefix v xs"
proof -
  from assms(1) consider "prefix v xs" | us where "v = xs @ us" "prefix us (val @ b)"
    by (auto simp: prefix_append)
  then show ?thesis
  proof cases
    case 1
    then show ?thesis .
  next
    case 2
    show ?thesis
    proof (cases us)
      case Nil
      with 2 show ?thesis by simp
    next
      case (Cons u us')
      with 2(2) assms(2) have "u = hd val" by (cases val) auto
      with 2(1) Cons assms(3) show ?thesis by simp
    qed
  qed
qed

lemma no_prefix_inside_val:
  assumes "d \<noteq> []" and "set d \<subseteq> set val" and "v \<noteq> []" and "hd v \<notin> set val"
  shows "\<not> prefix v (d @ b)"
proof
  assume "prefix v (d @ b)"
  with assms(1,3) have "hd v = hd d" by (cases v; cases d) auto
  with assms show False by (cases d) auto
qed

lemma no_occurrence_after_replace:
  assumes safe: "safe_val v val"
    and old: "\<forall>i<n. \<not> prefix v (drop i s)"
    and n: "n \<le> length s"
  shows "\<forall>i<n + length val. \<not> prefix v (drop i (take n s @ val @ b))"
proof (intro allI impI)
  fix i assume i: "i < n + length val"
  from safe have v: "v \<noteq> []" and val: "val \<noteq> []" and hv: "hd val \<notin> set v" and hh: "hd v \<notin> set val"
    by (simp_all add: safe_val_def)
  show "\<not> prefix v (drop i (take n s @ val @ b))"
  proof (cases "i < n")
    case True
    show ?thesis
    proof
      assume "prefix v (drop i (take n s @ val @ b))"
      with True n have "prefix v (drop i (take n s) @ val @ b)" by simp
      from prefix_stops_before_val [OF this val hv] have "prefix v (drop i (take n s))" .
      moreover have "drop i s = drop i (take n s) @ drop n s"
        using True by (metis append_take_drop_id drop_append less_imp_le_nat length_take min.absorb2 n diff_is_0_eq drop_0)
      ultimately have "prefix v (drop i s)" by (simp add: prefix_prefix)
      with old True show False by simp
    qed
  next
    case False
    with i n have d: "drop i (take n s @ val @ b) = drop (i - n) val @ b" by simp
    from False i have "drop (i - n) val \<noteq> []" by simp
    from no_prefix_inside_val [OF this _ v hh, of b] d show ?thesis
      by (simp add: set_drop_subset)
  qed
qed

lemma expand_var_from:
  assumes safe: "safe_val v val"
  shows "lasto \<le> c \<Longrightarrow> c \<le> length logpath \<Longrightarrow> \<forall>i<c. \<not> prefix v (drop i logpath) \<Longrightarrow>
    expand_var v val logpath lasto found =
      Some (take c logpath @ spec_replace_all v val (drop c logpath),
            found \<or> strstr (drop c logpath) v \<noteq> None)"
proof (induction "length logpath - c" arbitrary: logpath lasto c found rule: less_induct)
  case less
  from safe have v: "v \<noteq> []" by (simp add: safe_val_def)
  show ?case
  proof (cases "strstr (drop c logpath) v")
    case None
    then have "\<forall>i\<le>length logpath - c. \<not> prefix v (drop (i + c) logpath)"
      by (simp add: strstr_None_iff)
    have "\<forall>i\<le>length logpath. \<not> prefix v (drop i logpath)"
    proof (intro allI impI)
      fix i assume i: "i \<le> length logpath"
      show "\<not> prefix v (drop i logpath)"
      proof (cases "i < c")
        case True
        with less.prems(3) show ?thesis by simp
      next
        case False
        with i \<open>\<forall>i\<le>length logpath - c. \<not> prefix v (drop (i + c) logpath)\<close>
        have "\<not> prefix v (drop (i - c + c) logpath)" by (metis diff_le_mono)
        with False show ?thesis by simp
      qed
    qed
    then have "strstr (drop lasto logpath) v = None"
      using less.prems(1,2) by (auto simp: strstr_None_iff)
    with None show ?thesis
      by (subst expand_var.simps) (simp add: spec_replace_all_None)
  next
    case (Some j)
    then have j: "j \<le> length logpath - c" "prefix v (drop (c + j) logpath)"
      "\<forall>i<j. \<not> prefix v (drop (c + i) logpath)"
      by (simp_all add: strstr_Some_iff add.commute)
    have first: "\<forall>i<c + j. \<not> prefix v (drop i logpath)"
    proof (intro allI impI)
      fix i assume i: "i < c + j"
      show "\<not> prefix v (drop i logpath)"
      proof (cases "i < c")
        case True
        with less.prems(3) show ?thesis by simp
      next
        case False
        with i j(3) have "\<not> prefix v (drop (c + (i - c)) logpath)" by (metis add_diff_inverse_nat nat_add_left_cancel_less)
        with False show ?thesis by simp
      qed
    qed
    from j(2) have len: "c + j + length v \<le> length logpath"
      by (metis prefix_length_le length_drop le_diff_conv2 add.commute j(1) less.prems(2) le_diff_conv Nat.le_diff_conv2 add_leD2)
    define k where "k = c + j - lasto"
    have k: "lasto + k = c + j" using less.prems(1) by (simp add: k_def)
    have "strstr (drop lasto logpath) v = Some k"
      using j(2) first len less.prems(1) k
      by (auto simp: strstr_Some_iff add.commute k_def)
    moreover define logpath' where "logpath' = take (c + j) logpath @ val @ drop (c + j + length v) logpath"
    ultimately have step: "expand_var v val logpath lasto found =
       expand_var v val logpath' (k + length val) True"
      by (subst expand_var.simps) (simp add: k logpath'_def)
    have l': "length logpath' = length logpath - length v + length val"
      using len by (simp add: logpath'_def)
    have "length logpath' - (c + j + length val) < length logpath - c"
      using len v l' by (cases v) auto
    moreover have "k + length val \<le> c + j + length val" by (simp add: k_def)
    moreover have "c + j + length val \<le> length logpath'" using len l' by simp
    moreover have "\<forall>i<c + j + length val. \<not> prefix v (drop i logpath')"
      unfolding logpath'_def using no_occurrence_after_replace [OF safe first] len by simp
    ultimately have "expand_var v val logpath' (k + length val) True =
      Some (take (c + j + length val) logpath' @
            spec_replace_all v val (drop (c + j + length val) logpath'),
            True \<or> strstr (drop (c + j + length val) logpath') v \<noteq> None)"
      by (rule less.hyps)
    moreover have "take (c + j + length val) logpath' = take (c + j) logpath @ val"
      using len by (simp add: logpath'_def)
    moreover have "drop (c + j + length val) logpath' = drop (c + j + length v) logpath"
      using len by (simp add: logpath'_def)
    moreover have "spec_replace_all v val (drop c logpath) =
      take j (drop c logpath) @ val @ spec_replace_all v val (drop (j + length v) (drop c logpath))"
      using spec_replace_all_Some [OF v Some] .
    moreover have "take c logpath @ take j (drop c logpath) = take (c + j) logpath"
      by (simp add: take_add)
    ultimately show ?thesis using step Some
      by (simp add: add.commute add.left_commute)
  qed
qed

lemma expand_var_safe:
  "safe_val v val \<Longrightarrow>
   expand_var v val s 0 False = Some (spec_replace_all v val s, strstr s v \<noteq> None)"
  using expand_var_from [of v val 0 0 s False] by simp

subsection \<open>The loop can run forever\<close>

text \<open>
  When the user name is itself \<^verbatim>\<open>${USER}\<close> and the template names the variable twice,
  the second pass of the loop replaces the variable by itself and sets \<^verbatim>\<open>last\<close> back
  to where it was: \<^verbatim>\<open>FileLoggerGetPath\<close> does not return.
\<close>

lemma expand_var_fixed_state:
  assumes "expand_var var val logpath lasto found = Some r"
  shows "\<not> (var = ''${USER}'' \<and> val = ''${USER}'' \<and> logpath = ''${USER}${USER}'' \<and> lasto = 7)"
proof (rule expand_var.raw_induct
    [where P = "\<lambda>var val logpath lasto found r.
       \<not> (var = ''${USER}'' \<and> val = ''${USER}'' \<and> logpath = ''${USER}${USER}'' \<and> lasto = 7)",
     OF _ assms])
  fix f var val logpath lasto found r
  assume IH: "\<And>var val logpath lasto found y. f var val logpath lasto found = Some y \<Longrightarrow>
      \<not> (var = ''${USER}'' \<and> val = ''${USER}'' \<and> logpath = ''${USER}${USER}'' \<and> lasto = 7)"
    and body: "(case strstr (drop lasto logpath) var of
         None \<Rightarrow> Some (logpath, found)
       | Some k \<Rightarrow> f var val (take (lasto + k) logpath @ val @ drop (lasto + k + length var) logpath)
           (k + length val) True) = Some r"
  show "\<not> (var = ''${USER}'' \<and> val = ''${USER}'' \<and> logpath = ''${USER}${USER}'' \<and> lasto = 7)"
  proof
    assume "var = ''${USER}'' \<and> val = ''${USER}'' \<and> logpath = ''${USER}${USER}'' \<and> lasto = 7"
    with body have "f ''${USER}'' ''${USER}'' ''${USER}${USER}'' 7 True = Some r"
      by (simp add: eval_nat_numeral)
    from IH [OF this] show False by simp
  qed
qed

lemma expand_var_loops:
  "expand_var ''${USER}'' ''${USER}'' ''${USER}${USER}'' 7 True = None"
  using expand_var_fixed_state [of "''${USER}''" "''${USER}''" "''${USER}${USER}''" 7 True]
  by (cases "expand_var ''${USER}'' ''${USER}'' ''${USER}${USER}'' 7 True") auto

lemma expand_var_hangs: "expand_var ''${USER}'' ''${USER}'' ''${USER}${USER}'' 0 False = None"
  using expand_var_loops by (subst expand_var.simps) (simp add: eval_nat_numeral)

lemma FileLoggerGetPath_hangs: "FileLoggerGetPath \<lparr>user = ''${USER}'', pid = 1, win32 = False\<rparr>
     \<lparr>file_ptr = None, path = ''${USER}${USER}'', logSize = 0, maxSize = 0,
      maxFiles = 1, append_flag = True, error = False\<rparr> 0 = None"
  by (simp add: FileLoggerGetPath_def expand_var_hangs)

subsection \<open>Printed numbers\<close>

lemma digit_char_in: "d < 10 \<Longrightarrow> digit_char d \<in> value_chars"
proof -
  assume "d < 10"
  then have "d < length ''0123456789''" by simp
  then have "''0123456789'' ! d \<in> set ''0123456789''" by (rule nth_mem)
  then show ?thesis unfolding digit_char_def value_chars_def by simp
qed

lemma print_u_chars: "set (print_u n) \<subseteq> value_chars"
proof (induction n rule: print_u.induct)
  case (1 n)
  show ?case
  proof (cases "n < 10")
    case True
    then have "print_u n = [digit_char n]" by (subst print_u.simps) simp
    with digit_char_in [OF True] show ?thesis by simp
  next
    case False
    then have "print_u n = print_u (n div 10) @ [digit_char (n mod 10)]"
      by (subst print_u.simps) simp
    moreover have "digit_char (n mod 10) \<in> value_chars" by (rule digit_char_in) simp
    moreover from 1 False have "set (print_u (n div 10)) \<subseteq> value_chars" by simp
    ultimately show ?thesis by simp
  qed
qed

lemma print_u_nonempty: "print_u n \<noteq> []"
  by (subst print_u.simps) simp

lemma print_d_chars: "set (print_d i) \<subseteq> value_chars"
proof -
  have "CHR ''-'' \<in> value_chars" by (simp add: value_chars_def)
  with print_u_chars [of "nat i"] print_u_chars [of "nat (- i)"] show ?thesis
    by (simp add: print_d_def)
qed

lemma print_d_nonempty: "print_d i \<noteq> []"
  by (simp add: print_d_def print_u_nonempty)

lemma safe_val_chars:
  assumes "val \<noteq> []" and "set val \<subseteq> cs" and "var \<noteq> []" and "set var \<inter> cs = {}"
  shows "safe_val var val"
proof -
  from assms(1,2) have "hd val \<in> cs" by (cases val) auto
  moreover from assms(3) have "hd var \<in> set var" by simp
  ultimately show ?thesis using assms unfolding safe_val_def by blast
qed

lemma safe_val_pid: "safe_val ''${PID}'' (print_u n)"
proof (rule safe_val_chars [OF print_u_nonempty print_u_chars])
  show "''${PID}'' \<noteq> []" by simp
  show "set ''${PID}'' \<inter> value_chars = {}" by (simp add: value_chars_def)
qed

lemma safe_val_idx: "safe_val ''${IDX}'' (take 10 (print_d i))"
proof (rule safe_val_chars)
  show "take 10 (print_d i) \<noteq> []" using print_d_nonempty [of i] by (cases "print_d i") simp_all
  show "set (take 10 (print_d i)) \<subseteq> value_chars"
    using print_d_chars [of i] set_take_subset [of 10 "print_d i"] by blast
  show "''${IDX}'' \<noteq> []" by simp
  show "set ''${IDX}'' \<inter> value_chars = {}" by (simp add: value_chars_def)
qed

section \<open>FileLoggerGetPath after the first variable\<close>

lemma FileLoggerGetPath_user_pass:
  "FileLoggerGetPath e data index =
     (case expand_var ''${USER}'' (user e) (path data) 0 False of
        None \<Rightarrow> None
      | Some (p1, f1) \<Rightarrow> Some (finish_path e p1 index))"
proof (cases "expand_var ''${USER}'' (user e) (path data) 0 False")
  case None
  then show ?thesis by (simp add: FileLoggerGetPath_def)
next
  case (Some r)
  obtain p1 f1 where r: "r = (p1, f1)" by (cases r)
  let ?s = "spec_replace_all ''${PID}'' (print_u (pid e)) p1"
  have pid: "expand_var ''${PID}'' (print_u (pid e)) p1 0 False =
      Some (?s, strstr p1 ''${PID}'' \<noteq> None)"
    by (rule expand_var_safe [OF safe_val_pid])
  have idx: "expand_var ''${IDX}'' (take 10 (print_d index)) ?s 0 False =
      Some (spec_replace_all ''${IDX}'' (take 10 (print_d index)) ?s, strstr ?s ''${IDX}'' \<noteq> None)"
    by (rule expand_var_safe [OF safe_val_idx])
  have "FileLoggerGetPath e data index = Some (finish_path e p1 index)"
    by (cases "strstr ?s ''${IDX}''")
       (simp_all add: FileLoggerGetPath_def finish_path_def Some r pid idx spec_replace_all_None)
  with Some r show ?thesis by simp
qed

lemma FileLoggerGetPath_safe:
  "safe_val ''${USER}'' (user e) \<Longrightarrow>
   FileLoggerGetPath e data index =
     Some (finish_path e (spec_replace_all ''${USER}'' (user e) (path data)) index)"
  by (simp add: FileLoggerGetPath_user_pass expand_var_safe)

lemma FileLoggerGetPath_any_index:
  "FileLoggerGetPath e data i = Some p \<Longrightarrow> \<exists>q. FileLoggerGetPath e data j = Some q"
  by (auto simp: FileLoggerGetPath_user_pass split: option.splits)

lemma spec_replace_all_differ:
  assumes "v \<noteq> []" and "strstr s v \<noteq> None" and "length a = length b" and "a \<noteq> b"
  shows "spec_replace_all v a s \<noteq> spec_replace_all v b s"
proof -
  from assms(2) obtain j where j: "strstr s v = Some j" by auto
  show ?thesis
    using spec_replace_all_Some [OF assms(1) j, of a] spec_replace_all_Some [OF assms(1) j, of b]
      assms(3,4)
    by simp
qed

lemma length_add_index: "length (add_index p i) > length p"
  using print_d_nonempty [of i]
  by (auto simp: add_index_def Let_def split: option.splits)

lemma print_d_0: "take 10 (print_d 0) = ''0''"
  by (simp add: print_d_def print_u.simps digit_char_def)

lemma print_d_1: "take 10 (print_d 1) = ''1''"
  by (simp add: print_d_def print_u.simps digit_char_def)

lemma FileLoggerGetPath_0_1:
  assumes "FileLoggerGetPath e data 0 = Some p0" and "FileLoggerGetPath e data 1 = Some p1"
  shows "p0 \<noteq> p1"
proof -
  from assms obtain s f where s: "expand_var ''${USER}'' (user e) (path data) 0 False = Some (s, f)"
    and p0: "p0 = finish_path e s 0" and p1: "p1 = finish_path e s 1"
    by (auto simp: FileLoggerGetPath_user_pass split: option.splits)
  let ?t = "spec_replace_all ''${PID}'' (print_u (pid e)) s"
  show ?thesis
  proof (cases "strstr ?t ''${IDX}''")
    case None
    with p0 p1 length_add_index [of ?t 1] show ?thesis
      by (auto simp: finish_path_def Let_def)
  next
    case (Some j)
    then have "spec_replace_all ''${IDX}'' ''0'' ?t \<noteq> spec_replace_all ''${IDX}'' ''1'' ?t"
      by (intro spec_replace_all_differ) simp_all
    with p0 p1 Some show ?thesis
      by (simp add: finish_path_def Let_def print_d_0 print_d_1)
  qed
qed

lemma FileLoggerGetPath_index_0:
  assumes "safe_val ''${USER}'' (user e)"
  shows "FileLoggerGetPath e data 0 =
           Some (spec_replace_all ''${IDX}'' ''0''
                  (spec_replace_all ''${PID}'' (print_u (pid e))
                    (spec_replace_all ''${USER}'' (user e) (path data))))"
proof -
  let ?s = "spec_replace_all ''${PID}'' (print_u (pid e))
              (spec_replace_all ''${USER}'' (user e) (path data))"
  show ?thesis
    unfolding FileLoggerGetPath_safe [OF assms] finish_path_def Let_def
    by (cases "strstr ?s ''${IDX}''") (simp_all add: print_d_0 spec_replace_all_None)
qed

section \<open>Where the index goes\<close>

lemma strrchr_None_iff: "strrchr p c = None \<longleftrightarrow> c \<notin> set p"
  by (induction p) (auto split: option.splits)

lemma strrchr_last: "c \<notin> set b \<Longrightarrow> strrchr (a @ c # b) c = Some (length a)"
proof (induction a)
  case Nil
  then have "strrchr b c = None" by (simp add: strrchr_None_iff)
  then show ?case by simp
next
  case (Cons x a)
  then show ?case by simp
qed

lemma strrchr_SomeD:
  "strrchr p c = Some i \<Longrightarrow> \<exists>a b. p = a @ c # b \<and> c \<notin> set b \<and> length a = i"
proof (induction p arbitrary: i)
  case Nil
  then show ?case by simp
next
  case (Cons x p)
  show ?case
  proof (cases "strrchr p c")
    case None
    with Cons.prems have "x = c" "i = 0" by (simp_all split: if_splits)
    moreover from None have "c \<notin> set p" by (simp add: strrchr_None_iff)
    ultimately show ?thesis by (intro exI [of _ "[]"] exI [of _ p]) simp
  next
    case (Some j)
    with Cons.prems have i: "i = Suc j" by simp
    from Cons.IH [OF Some] obtain a b where "p = a @ c # b" "c \<notin> set b" "length a = j" by blast
    with i show ?thesis by (intro exI [of _ "x # a"] exI [of _ b]) simp
  qed
qed

lemma after_last_split: "c \<notin> set b \<Longrightarrow> after_last c (a @ c # b) = b"
proof -
  assume "c \<notin> set b"
  then have "takeWhile (\<lambda>x. x \<noteq> c) (rev b @ c # rev a) = rev b"
    by (auto simp: takeWhile_tail)
  then show ?thesis by (simp add: after_last_def)
qed

lemma after_last_none: "c \<notin> set p \<Longrightarrow> after_last c p = p"
proof -
  assume "c \<notin> set p"
  then have "takeWhile (\<lambda>x. x \<noteq> c) (rev p) = rev p"
    by (intro takeWhile_eq_all_conv [THEN iffD2]) auto
  then show ?thesis unfolding after_last_def by (simp only: rev_rev_ident)
qed

lemma sep_char_not_dot: "sep_char p \<noteq> CHR ''.''"
  by (simp add: sep_char_def backslash_def)

lemma pathsep_eq:
  "(case strrchr p (CHR ''/'') of None \<Rightarrow> strrchr p backslash | Some j \<Rightarrow> Some j) =
   strrchr p (sep_char p)"
proof (cases "CHR ''/'' \<in> set p")
  case True
  then obtain j where "strrchr p (CHR ''/'') = Some j" using strrchr_None_iff [of p "CHR ''/''"] by auto
  with True show ?thesis by (simp add: sep_char_def)
next
  case False
  then have "strrchr p (CHR ''/'') = None" by (simp add: strrchr_None_iff)
  with False show ?thesis by (simp add: sep_char_def)
qed

lemma add_index_cases:
  "add_index p index =
     (case strrchr p (CHR ''.'') of
        None \<Rightarrow> p @ ''.'' @ print_d index
      | Some i \<Rightarrow>
          (if (case strrchr p (sep_char p) of None \<Rightarrow> True | Some j \<Rightarrow> j < i)
           then take i p @ ''.'' @ print_d index @ ''.'' @ drop (Suc i) p
           else p @ ''.'' @ print_d index))"
  unfolding add_index_def Let_def pathsep_eq ..

lemma char_after:
  assumes "p = a @ c # b" and "length a < i" and "i < length p"
  shows "p ! i \<in> set b"
proof -
  from assms have "p ! i = b ! (i - Suc (length a))" "i - Suc (length a) < length b"
    by (auto simp: nth_append nth_Cons')
  then show ?thesis by (metis nth_mem)
qed

lemma add_index_extension:
  assumes p: "p = stem @ ''.'' @ ext" and dot: "CHR ''.'' \<notin> set ext"
    and sep: "sep_char p \<notin> set ext"
  shows "add_index p index = stem @ ''.'' @ print_d index @ ''.'' @ ext"
proof -
  define sc where "sc = sep_char p"
  have ne: "sc \<noteq> CHR ''.''" by (simp add: sc_def sep_char_not_dot)
  from p dot have s: "strrchr p (CHR ''.'') = Some (length stem)"
    using strrchr_last [of "CHR ''.''" ext stem] by simp
  have before: "j < length stem" if "strrchr p sc = Some j" for j
  proof -
    from strrchr_SomeD [OF that] obtain a b where ab: "p = a @ sc # b" "length a = j" by blast
    then have pj: "p ! j = sc" and jl: "j < length p" by auto
    show ?thesis
    proof (rule ccontr)
      assume "\<not> j < length stem"
      then consider "j = length stem" | "length stem < j" by linarith
      then show False
      proof cases
        case 1
        with p have "p ! j = CHR ''.''" by simp
        with pj ne show False by simp
      next
        case 2
        from p have "p = stem @ CHR ''.'' # ext" by simp
        from char_after [OF this 2 jl] pj sep show False by (simp add: sc_def)
      qed
    qed
  qed
  have "take (length stem) p = stem" "drop (Suc (length stem)) p = ext"
    using p by simp_all
  with s before show ?thesis
    unfolding add_index_cases sc_def [symmetric]
    by (cases "strrchr p sc") simp_all
qed

lemma add_index_no_extension:
  assumes "CHR ''.'' \<notin> set (after_last (sep_char p) p)"
  shows "add_index p index = p @ ''.'' @ print_d index"
proof -
  define sc where "sc = sep_char p"
  have ne: "sc \<noteq> CHR ''.''" by (simp add: sc_def sep_char_not_dot)
  from assms have nodot: "CHR ''.'' \<notin> set (after_last sc p)" by (simp add: sc_def)
  show ?thesis
  proof (cases "strrchr p (CHR ''.'')")
    case None
    then show ?thesis by (simp add: add_index_cases)
  next
    case (Some i)
    note i = this
    from strrchr_SomeD [OF this] obtain a0 b0 where "p = a0 @ CHR ''.'' # b0" "length a0 = i"
      by blast
    then have pi: "p ! i = CHR ''.''" and il: "i < length p" by auto
    then have dot: "CHR ''.'' \<in> set p" by (metis nth_mem)
    show ?thesis
    proof (cases "strrchr p sc")
      case None
      then have "after_last sc p = p" by (simp add: strrchr_None_iff after_last_none)
      with nodot dot show ?thesis by simp
    next
      case (Some j)
      note j = this
      from strrchr_SomeD [OF this] obtain a b
        where ab: "p = a @ sc # b" "sc \<notin> set b" "length a = j" by blast
      then have al: "after_last sc p = b" by (metis after_last_split)
      have "\<not> j < i"
      proof
        assume "j < i"
        with char_after [OF ab(1) _ il] ab(3) have "p ! i \<in> set b" by simp
        with pi al nodot show False by simp
      qed
      with i j show ?thesis
        unfolding add_index_cases sc_def [symmetric] by simp
    qed
  qed
qed

section \<open>The two loops of FileLoggerOpen\<close>

lemma FileLoggerGetPath_path_only:
  "path d = path d' \<Longrightarrow> FileLoggerGetPath e d i = FileLoggerGetPath e d' i"
  by (simp add: FileLoggerGetPath_def)

lemma find_logfiles_path_only:
  "path d = path d' \<Longrightarrow> maxFiles d = maxFiles d' \<Longrightarrow>
   find_logfiles e d w i acc = find_logfiles e d' w i acc"
proof (induction e d w i acc rule: find_logfiles.induct)
  case (1 e d w i acc)
  show ?case
    using 1 FileLoggerGetPath_path_only [of d d' e]
    by (subst (1 2) find_logfiles.simps) (auto split: option.splits)
qed

lemma rotate_logfiles_path_only:
  "path d = path d' \<Longrightarrow> maxFiles d = maxFiles d' \<Longrightarrow>
   rotate_logfiles e d w = rotate_logfiles e d' w"
  by (simp add: rotate_logfiles_def find_logfiles_path_only [of d d'])

lemma find_logfiles_Some:
  "(\<And>j. \<exists>q. FileLoggerGetPath e d j = Some q) \<Longrightarrow>
   \<exists>ls. find_logfiles e d w i acc = Some ls \<and> (i < maxFiles d \<or> acc \<noteq> [] \<longrightarrow> ls \<noteq> [])"
proof (induction e d w i acc rule: find_logfiles.induct)
  case (1 e d w i acc)
  show ?case
  proof (cases "i < maxFiles d")
    case False
    then show ?thesis by (subst find_logfiles.simps) simp
  next
    case True
    from "1.prems" obtain q where q: "FileLoggerGetPath e d (to_gint (int i)) = Some q" by blast
    show ?thesis
    proof (cases "g_file_test_is_regular w q")
      case False
      with True q show ?thesis by (subst find_logfiles.simps) simp
    next
      case reg: True
      from "1.IH" [OF True q _ "1.prems"] reg obtain ls where
        "find_logfiles e d w (Suc i) (acc @ [q]) = Some ls" "ls \<noteq> []" by auto
      with True q reg show ?thesis by (subst find_logfiles.simps) simp
    qed
  qed
qed

lemma rotate_logfiles_Some:
  assumes "FileLoggerGetPath e d 0 = Some p" and "0 < maxFiles d"
  shows "\<exists>w1. rotate_logfiles e d w = Some w1"
proof -
  from assms(1) have "\<And>i. \<exists>q. FileLoggerGetPath e d i = Some q"
    by (rule FileLoggerGetPath_any_index)
  from find_logfiles_Some [of e d w 0 "[]", OF this] assms(2) show ?thesis
    by (auto simp: rotate_logfiles_def)
qed

section \<open>Size accounting\<close>

text \<open>
  While the counter stays below \<open>2 ^ 31\<close> it is exact: each message adds its length,
  and one more under \<^verbatim>\<open>_WIN32\<close>. On a device that is not full the bytes reach the file;
  on a full device a message that fits the buffer is counted and lost.
\<close>

lemma msg_size_nonneg: "0 \<le> msg_size e m"
  by (simp add: msg_size_def)

lemma account_exact:
  assumes "0 \<le> logSize l" and "logSize l + msg_size e m < 2 ^ 31"
  shows "account e m l = l\<lparr>logSize := logSize l + msg_size e m\<rparr>"
proof -
  from assms have a: "int (length m) < 2 ^ 31" "logSize l + int (length m) < 2 ^ 31"
    by (simp_all add: msg_size_def split: if_splits)
  then have "to_gint (int (length m)) = int (length m)" by (simp add: to_gint_id)
  moreover from assms(1) a have "to_gint (logSize l + int (length m)) = logSize l + int (length m)"
    by (simp add: to_gint_id)
  moreover from assms have "win32 e \<Longrightarrow> to_gint (logSize l + int (length m) + 1) = logSize l + int (length m) + 1"
    by (simp add: to_gint_id msg_size_def)
  ultimately show ?thesis by (simp add: account_def msg_size_def Let_def)
qed

lemma below_limit:
  assumes "0 \<le> logSize l" and "logSize l + msg_size e m < int (maxSize l)"
    and "logSize l + msg_size e m < 2 ^ 31"
  shows "\<not> maxSize l \<le> to_guint64 (logSize l + msg_size e m)"
proof -
  have n: "0 \<le> logSize l + msg_size e m" using assms(1) msg_size_nonneg [of e m] by simp
  have "to_guint64 (logSize l + msg_size e m) = nat (logSize l + msg_size e m)"
    using n assms(3) by (rule to_guint64_nat)
  with assms(2) n show ?thesis by linarith
qed

lemma FileLoggerLog_below:
  assumes "file_ptr l = Some h" and "\<not> error l" and "0 < maxSize l"
    and "files w h = Some (Regular c)" and "\<not> full w"
    and "0 \<le> logSize l" and "logSize l + msg_size e m < int (maxSize l)"
    and "logSize l + msg_size e m < 2 ^ 31"
  shows "FileLoggerLog e m l w =
           Some (l\<lparr>logSize := logSize l + msg_size e m\<rparr>,
                 w\<lparr>files := (files w)(h \<mapsto> Regular (c @ text_mode e m))\<rparr>)"
  using assms below_limit [OF assms(6,7,8)]
  by (simp add: FileLoggerLog_def fputs_def fflush_def account_exact)

lemma FileLoggerLog_below_full:
  assumes "file_ptr l = Some h" and "\<not> error l" and "0 < maxSize l"
    and "files w h = Some (Regular c)" and "full w" and "length (text_mode e m) < bufsiz w"
    and "0 \<le> logSize l" and "logSize l + msg_size e m < int (maxSize l)"
    and "logSize l + msg_size e m < 2 ^ 31"
  shows "FileLoggerLog e m l w = Some (l\<lparr>logSize := logSize l + msg_size e m\<rparr>, w)"
  using assms below_limit [OF assms(7,8,9)]
  by (simp add: FileLoggerLog_def fputs_def fflush_def account_exact)

lemma FileLoggerLog_all_below:
  assumes "file_ptr l = Some h" and "\<not> error l" and "0 < maxSize l"
    and "files w h = Some (Regular c)" and "\<not> full w"
    and "0 \<le> logSize l"
    and "logSize l + sum_list (map (msg_size e) ms) < int (maxSize l)"
    and "logSize l + sum_list (map (msg_size e) ms) < 2 ^ 31"
  shows "FileLoggerLog_all e ms l w =
           Some (l\<lparr>logSize := logSize l + sum_list (map (msg_size e) ms)\<rparr>,
                 w\<lparr>files := (files w)(h \<mapsto> Regular (c @ concat (map (text_mode e) ms)))\<rparr>)"
  using assms
proof (induction ms arbitrary: l w c)
  case Nil
  then show ?case by (simp add: fun_upd_idem)
next
  case (Cons m ms)
  have s: "0 \<le> sum_list (map (msg_size e) ms)"
    by (rule sum_list_nonneg) (auto simp: msg_size_nonneg)
  let ?l = "l\<lparr>logSize := logSize l + msg_size e m\<rparr>"
  let ?w = "w\<lparr>files := (files w)(h \<mapsto> Regular (c @ text_mode e m))\<rparr>"
  have one: "FileLoggerLog e m l w = Some (?l, ?w)"
    using Cons.prems s by (intro FileLoggerLog_below) simp_all
  have rest: "FileLoggerLog_all e ms ?l ?w =
      Some (?l\<lparr>logSize := logSize ?l + sum_list (map (msg_size e) ms)\<rparr>,
            ?w\<lparr>files := (files ?w)
               (h \<mapsto> Regular ((c @ text_mode e m) @ concat (map (text_mode e) ms)))\<rparr>)"
    using Cons.prems msg_size_nonneg [of e m] by (intro Cons.IH) (simp_all add: add.assoc)
  have l: "?l\<lparr>logSize := logSize ?l + sum_list (map (msg_size e) ms)\<rparr> =
      l\<lparr>logSize := logSize l + sum_list (map (msg_size e) (m # ms))\<rparr>"
    by (simp add: add.assoc)
  have w: "?w\<lparr>files := (files ?w)
               (h \<mapsto> Regular ((c @ text_mode e m) @ concat (map (text_mode e) ms)))\<rparr> =
      w\<lparr>files := (files w)(h \<mapsto> Regular (c @ concat (map (text_mode e) (m # ms))))\<rparr>"
    by (rule world_eqI) simp_all
  have "FileLoggerLog_all e (m # ms) l w = FileLoggerLog_all e ms ?l ?w"
    by (simp add: one)
  then show ?case unfolding rest l w .
qed

text \<open>
  A write that brings the counter to the limit or above, still below \<open>2 ^ 31\<close>: the
  stream is closed, the two loops of the rotation run, and the index-0 path is opened in
  mode \<^verbatim>\<open>"w"\<close>; the counter is 0 and the flag \<^verbatim>\<open>append\<close> is clear afterwards.
\<close>

lemma FileLoggerLog_crossing:
  assumes "file_ptr l = Some h" and "FileLoggerGetPath e l 0 = Some h" and "\<not> error l"
    and "0 < maxSize l" and "0 < maxFiles l"
    and "files w h = Some (Regular c)" and "\<not> full w"
    and "0 \<le> logSize l" and "int (maxSize l) \<le> logSize l + msg_size e m"
    and "logSize l + msg_size e m < 2 ^ 31"
  shows "\<exists>w1. rotate_logfiles e l (w\<lparr>files := (files w)(h \<mapsto> Regular (c @ text_mode e m))\<rparr>)
                = Some w1 \<and>
     FileLoggerLog e m l w =
       Some (l\<lparr>logSize := 0, append_flag := False, file_ptr := fst (g_fopen w1 h ModeW)\<rparr>,
             snd (g_fopen w1 h ModeW))"
proof -
  let ?w = "w\<lparr>files := (files w)(h \<mapsto> Regular (c @ text_mode e m))\<rparr>"
  let ?n = "logSize l + msg_size e m"
  from rotate_logfiles_Some [OF assms(2,5)] obtain w1 where w1: "rotate_logfiles e l ?w = Some w1"
    by blast
  have n: "0 \<le> ?n" using assms(8) msg_size_nonneg [of e m] by simp
  have "to_guint64 ?n = nat ?n" using n assms(10) by (rule to_guint64_nat)
  with assms(9) n have big: "maxSize l \<le> to_guint64 ?n" by linarith
  have cl: "fclose w h (text_mode e m) = ?w"
    using assms(6,7) by (simp add: fclose_def fflush_def)
  let ?l2 = "l\<lparr>logSize := ?n\<rparr>"
  let ?d1 = "?l2\<lparr>append_flag := False, logSize := to_gint (int (length (c @ text_mode e m)))\<rparr>"
  have r: "rotate_logfiles e ?d1 ?w = Some w1"
    using w1 rotate_logfiles_path_only [of ?d1 l e ?w] by simp
  have gp: "FileLoggerGetPath e (?l2\<lparr>append_flag := False\<rparr>) 0 = Some h"
    using assms(2) FileLoggerGetPath_path_only [of "?l2\<lparr>append_flag := False\<rparr>" l e 0] by simp
  have op: "FileLoggerOpen e (?l2\<lparr>append_flag := False\<rparr>) ?w =
      Some (fst (g_fopen w1 h ModeW), l\<lparr>logSize := 0, append_flag := False\<rparr>,
            snd (g_fopen w1 h ModeW))"
    using gp r
    by (simp add: FileLoggerOpen_def g_file_test_exists_def g_stat_def split: prod.splits)
  have "FileLoggerLog e m l w =
       Some (l\<lparr>logSize := 0, append_flag := False, file_ptr := fst (g_fopen w1 h ModeW)\<rparr>,
             snd (g_fopen w1 h ModeW))"
    using assms(1,3,4,6,7) big op cl
    by (simp add: FileLoggerLog_def fputs_def account_exact [OF assms(8,10)] reopen_if_full_def)
  with w1 show ?thesis by blast
qed

text \<open>
  On a full device the rotation still runs when the counter reaches the limit: the bytes
  that were counted never reached the file, \<^verbatim>\<open>fclose\<close> loses what the buffer holds, and
  the shorter file takes the place of the backup.
\<close>

lemma FileLoggerLog_full_device_rotates:
  "FileLoggerLog \<lparr>user = ''root'', pid = 1, win32 = False\<rparr> ''xy''
     \<lparr>file_ptr = Some ''vmware.log'', path = ''vmware.log'', logSize = 9, maxSize = 10,
      maxFiles = 2, append_flag = False, error = False\<rparr>
     ((disk [(''vmware.log'', Regular ''abc''), (''vmware.1.log'', Regular ''0123456789'')])
        \<lparr>full := True\<rparr>)
   = Some (\<lparr>file_ptr = Some ''vmware.log'', path = ''vmware.log'', logSize = 0, maxSize = 10,
            maxFiles = 2, append_flag = False, error = False\<rparr>,
           (disk [(''vmware.log'', Regular []), (''vmware.1.log'', Regular ''abc'')])
             \<lparr>full := True\<rparr>)"
  by (simp add: log_eval path_eval open_eval disk_eval disk_def)

lemma FileLoggerLog_all_append:
  "FileLoggerLog_all e (ms @ [m]) l w =
     (case FileLoggerLog_all e ms l w of
        None \<Rightarrow> None
      | Some (l', w') \<Rightarrow> FileLoggerLog e m l' w')"
  by (induction ms arbitrary: l w) (auto split: option.splits)

section \<open>C1: opening with no size limit\<close>

text \<open>
  Claim C1 says that a logger with \<^verbatim>\<open>maxSize == 0\<close> and \<^verbatim>\<open>append\<close> set, whose active
  file exists, neither shifts the backups nor truncates the active file. In the source
  the test \<^verbatim>\<open>logSize >= maxSize\<close> is not guarded by \<^verbatim>\<open>maxSize > 0\<close>, and it holds of
  every size when \<^verbatim>\<open>maxSize\<close> is 0: the existing file is moved to index 1, the flag
  \<^verbatim>\<open>append\<close> is cleared, and an empty active file is created.
\<close>

theorem FileLoggerOpen_unlimited_append_rotates:
  "FileLoggerOpen e
     \<lparr>file_ptr = None, path = ''vmware.log'', logSize = 0, maxSize = 0, maxFiles = 2,
      append_flag = True, error = False\<rparr>
     (disk [(''vmware.log'', Regular ''old'')])
   = Some (Some ''vmware.log'',
       \<lparr>file_ptr = None, path = ''vmware.log'', logSize = 0, maxSize = 0, maxFiles = 2,
        append_flag = False, error = False\<rparr>,
       disk [(''vmware.log'', Regular []), (''vmware.1.log'', Regular ''old'')])"
  by (simp add: path_eval open_eval disk_eval disk_def)

theorem FileLoggerOpen_unlimited_append_rotates_witness:
  "(case FileLoggerOpen \<lparr>user = ''root'', pid = 1, win32 = False\<rparr>
     \<lparr>file_ptr = None, path = ''vmware.log'', logSize = 0, maxSize = 0, maxFiles = 2,
      append_flag = True, error = False\<rparr>
     (disk [(''vmware.log'', Regular ''old'')]) of
      None \<Rightarrow> False
    | Some (f, l, w) \<Rightarrow>
        files w ''vmware.log'' = Some (Regular []) \<and>
        files w ''vmware.1.log'' = Some (Regular ''old'') \<and> append_flag l = False)"
  using FileLoggerOpen_unlimited_append_rotates [of "\<lparr>user = ''root'', pid = 1, win32 = False\<rparr>"]
  by (simp add: disk_def)

section \<open>C2: a backup count of 0\<close>

text \<open>
  Claim C2 says that a logger created with a backup count of 0 (\<^verbatim>\<open>maxFiles\<close> is 1)
  keeps one rotated copy of the active file when it rotates. In the source the first
  loop then collects the active path alone, the second loop has nothing to rename, and
  \<^verbatim>\<open>g_fopen\<close> truncates the active file: its old content is in no file afterwards.
\<close>

theorem FileLoggerOpen_no_backups_loses_log:
  "Option.bind (GlibUtils_CreateFileLogger Some ''vmware.log'' False 10 0)
     (\<lambda>l. FileLoggerOpen e l (disk [(''vmware.log'', Regular ''old'')]))
   = Some (Some ''vmware.log'',
       \<lparr>file_ptr = None, path = ''vmware.log'', logSize = 0, maxSize = 10485760, maxFiles = 1,
        append_flag = False, error = False\<rparr>,
       disk [(''vmware.log'', Regular [])])"
  by (simp add: GlibUtils_CreateFileLogger_def path_eval open_eval disk_eval disk_def)

theorem FileLoggerOpen_no_backups_loses_log_witness:
  "(case Option.bind (GlibUtils_CreateFileLogger Some ''vmware.log'' False 10 0)
     (\<lambda>l. FileLoggerOpen \<lparr>user = ''root'', pid = 1, win32 = False\<rparr> l
        (disk [(''vmware.log'', Regular ''old'')])) of
      None \<Rightarrow> False
    | Some (f, l, w) \<Rightarrow>
        maxFiles l = 1 \<and> dom (files w) = {''vmware.log''} \<and>
        files w ''vmware.log'' = Some (Regular []))"
  using FileLoggerOpen_no_backups_loses_log [of "\<lparr>user = ''root'', pid = 1, win32 = False\<rparr>"]
  by (simp add: disk_def)

section \<open>C3: the rotation chain\<close>

text \<open>
  Claim C3: with \<^verbatim>\<open>maxFiles\<close> equal to 3 (two backups), regular files at the paths of
  index 0 and 1 and nothing at the path of index 2, an open that rotates (the flag
  \<^verbatim>\<open>append\<close> is clear, or the size of the active file has reached \<^verbatim>\<open>maxSize\<close>) renames
  the old index-1 file to index 2 and the old index-0 file to index 1, and then creates
  the index-0 file empty. Nothing else on the disk changes; the size counter is 0 and
  the flag \<^verbatim>\<open>append\<close> is clear afterwards.
\<close>

theorem FileLoggerOpen_rotation_chain:
  assumes mf: "maxFiles data = 3"
    and p0: "FileLoggerGetPath e data 0 = Some p0"
    and p1: "FileLoggerGetPath e data 1 = Some p1"
    and p2: "FileLoggerGetPath e data 2 = Some p2"
    and f0: "files w p0 = Some (Regular c0)"
    and f1: "files w p1 = Some (Regular c1)"
    and f2: "files w p2 = None"
    and rot: "\<not> append_flag data \<or> maxSize data \<le> to_guint64 (to_gint (int (length c0)))"
    and den: "\<not> denied w p0"
  shows "FileLoggerOpen e data w =
           Some (Some p0, data\<lparr>logSize := 0, append_flag := False\<rparr>,
                 w\<lparr>files := (files w)(p2 \<mapsto> Regular c1, p1 \<mapsto> Regular c0, p0 \<mapsto> Regular [])\<rparr>)"
proof -
  from p0 p1 have n01: "p0 \<noteq> p1" by (rule FileLoggerGetPath_0_1)
  from f0 f2 have n02: "p0 \<noteq> p2" by auto
  from f1 f2 have n12: "p1 \<noteq> p2" by auto
  let ?d = "data\<lparr>logSize := to_gint (int (length c0))\<rparr>"
  have g: "FileLoggerGetPath e ?d i = FileLoggerGetPath e data i" for i
    by (simp add: FileLoggerGetPath_def)
  have i1: "to_gint 1 = 1" and i2: "to_gint 2 = 2" by (simp_all add: to_gint_def)
  have find: "find_logfiles e ?d w 0 [] = Some [p0, p1, p2]"
    using mf p0 p1 p2 f0 f1 f2
    by (simp add: find_logfiles.simps g to_gint_0 i1 i2 g_file_test_is_regular_def)
  let ?w1 = "w\<lparr>files := (files w)(p1 := None, p2 \<mapsto> Regular c1)\<rparr>"
  let ?w2 = "w\<lparr>files := (files w)(p1 \<mapsto> Regular c0, p2 \<mapsto> Regular c1, p0 := None)\<rparr>"
  have s1: "shift_logfile w p2 p1 = ?w1"
    using f1 f2 by (simp add: shift_logfile_def g_file_test_is_dir_def g_file_test_exists_def g_rename_def)
  have s2: "shift_logfile ?w1 p1 p0 = ?w2"
    using f0 n01 n02 n12
    by (intro world_eqI) (simp_all add: shift_logfile_def g_file_test_is_dir_def g_file_test_exists_def g_rename_def)
  have ren: "rename_logfiles w [p0, p1, p2] (length [p0, p1, p2] - 1) = ?w2"
    using s1 s2 by (simp add: numeral_2_eq_2)
  have rotl: "rotate_logfiles e ?d w = Some ?w2"
    unfolding rotate_logfiles_def find using ren by simp
  have fo: "g_fopen ?w2 p0 ModeW =
      (Some p0, w\<lparr>files := (files w)(p2 \<mapsto> Regular c1, p1 \<mapsto> Regular c0, p0 \<mapsto> Regular [])\<rparr>)"
    using den n01 n02 n12 by (simp add: g_fopen_def) (intro world_eqI; simp)
  show ?thesis
    using p0 f0 rot rotl fo
    by (simp add: FileLoggerOpen_def g_file_test_exists_def g_stat_def)
qed

text \<open>
  The witness: a logger created with two backups, the user name in the template, the
  active file and one backup on the disk.
\<close>

theorem FileLoggerOpen_rotation_chain_witness:
  "GlibUtils_CreateFileLogger Some ''/var/log/vmware-${USER}.log'' False 0 2
   = Some \<lparr>file_ptr = None, path = ''/var/log/vmware-${USER}.log'', logSize = 0, maxSize = 0,
            maxFiles = 3, append_flag = False, error = False\<rparr>
   \<and> FileLoggerOpen \<lparr>user = ''root'', pid = 1, win32 = False\<rparr>
     \<lparr>file_ptr = None, path = ''/var/log/vmware-${USER}.log'', logSize = 0, maxSize = 0,
      maxFiles = 3, append_flag = False, error = False\<rparr>
     (disk [(''/var/log/vmware-root.log'', Regular ''new''),
            (''/var/log/vmware-root.1.log'', Regular ''old'')])
   = Some (Some ''/var/log/vmware-root.log'',
      \<lparr>file_ptr = None, path = ''/var/log/vmware-${USER}.log'', logSize = 0, maxSize = 0,
       maxFiles = 3, append_flag = False, error = False\<rparr>,
      disk [(''/var/log/vmware-root.log'', Regular []),
            (''/var/log/vmware-root.1.log'', Regular ''new''),
            (''/var/log/vmware-root.2.log'', Regular ''old'')])"
proof -
  let ?e = "\<lparr>user = ''root'', pid = 1, win32 = False\<rparr>"
  let ?l = "\<lparr>file_ptr = None, path = ''/var/log/vmware-${USER}.log'', logSize = 0, maxSize = 0,
             maxFiles = 3, append_flag = False, error = False\<rparr>"
  let ?w = "disk [(''/var/log/vmware-root.log'', Regular ''new''),
                  (''/var/log/vmware-root.1.log'', Regular ''old'')]"
  have mf: "maxFiles ?l = 3" by simp
  have p0: "FileLoggerGetPath ?e ?l 0 = Some ''/var/log/vmware-root.log''"
    by (simp add: path_eval)
  have p1: "FileLoggerGetPath ?e ?l 1 = Some ''/var/log/vmware-root.1.log''"
    by (simp add: path_eval)
  have p2: "FileLoggerGetPath ?e ?l 2 = Some ''/var/log/vmware-root.2.log''"
    by (simp add: path_eval)
  have f0: "files ?w ''/var/log/vmware-root.log'' = Some (Regular ''new'')"
    by (simp add: disk_def)
  have f1: "files ?w ''/var/log/vmware-root.1.log'' = Some (Regular ''old'')"
    by (simp add: disk_def)
  have f2: "files ?w ''/var/log/vmware-root.2.log'' = None"
    by (simp add: disk_def)
  have rot: "\<not> append_flag ?l \<or> maxSize ?l \<le> to_guint64 (to_gint (int (length ''new'')))"
    by simp
  have den: "\<not> denied ?w ''/var/log/vmware-root.log''"
    by (simp add: disk_def)
  have "FileLoggerOpen ?e ?l ?w =
      Some (Some ''/var/log/vmware-root.log'', ?l\<lparr>logSize := 0, append_flag := False\<rparr>,
        ?w\<lparr>files := (files ?w)(''/var/log/vmware-root.2.log'' \<mapsto> Regular ''old'',
          ''/var/log/vmware-root.1.log'' \<mapsto> Regular ''new'',
          ''/var/log/vmware-root.log'' \<mapsto> Regular [])\<rparr>)"
    by (rule FileLoggerOpen_rotation_chain [OF mf p0 p1 p2 f0 f1 f2 rot den])
  moreover have "?w\<lparr>files := (files ?w)(''/var/log/vmware-root.2.log'' \<mapsto> Regular ''old'',
          ''/var/log/vmware-root.1.log'' \<mapsto> Regular ''new'',
          ''/var/log/vmware-root.log'' \<mapsto> Regular [])\<rparr> =
      disk [(''/var/log/vmware-root.log'', Regular []),
            (''/var/log/vmware-root.1.log'', Regular ''new''),
            (''/var/log/vmware-root.2.log'', Regular ''old'')]"
    by (rule world_eqI) (simp_all add: disk_def)
  ultimately show ?thesis
    by (simp add: GlibUtils_CreateFileLogger_def)
qed

section \<open>C4: the size counter\<close>

text \<open>
  Claim C4 says that while the lengths of the messages written sum to less than the
  limit, the size counter is their exact sum, and that the log is rotated by the write
  that brings the counter to the limit. In the source the counter is a 32-bit \<^verbatim>\<open>gint\<close>
  and the limit a \<^verbatim>\<open>guint64\<close> that can be \<open>2 ^ 31\<close> or more (a limit of 2048 megabytes
  and above): at \<open>2 ^ 31\<close> bytes the counter becomes negative, the conversion to
  \<^verbatim>\<open>guint64\<close> for the comparison makes it larger than any limit, and the log is rotated.
  With a limit of 3000 megabytes (3,145,728,000 bytes),
  \<^item> one message of \<open>2 ^ 31\<close> bytes written to a new log leaves the counter at 0, not at
    2,147,483,648, and the message in the backup;
  \<^item> with \<open>2 ^ 31 - 1\<close> bytes written and counted, one more byte rotates the log, 952
    megabytes before the limit.
\<close>

theorem FileLoggerLog_counter_wraps:
  "length (replicate 2147483648 (CHR ''x'')) < 3145728000
   \<and> Option.bind (GlibUtils_CreateFileLogger Some ''vmware.log'' False 3000 1)
     (\<lambda>l. FileLoggerLog \<lparr>user = ''root'', pid = 1, win32 = False\<rparr>
            (replicate 2147483648 (CHR ''x'')) l (disk []))
   = Some (\<lparr>file_ptr = Some ''vmware.log'', path = ''vmware.log'', logSize = 0,
            maxSize = 3145728000, maxFiles = 2, append_flag = False, error = False\<rparr>,
           disk [(''vmware.log'', Regular []),
                 (''vmware.1.log'', Regular (replicate 2147483648 (CHR ''x'')))])
   \<and> FileLoggerLog \<lparr>user = ''root'', pid = 1, win32 = False\<rparr> ''x''
       \<lparr>file_ptr = Some ''vmware.log'', path = ''vmware.log'', logSize = 2147483647,
        maxSize = 3145728000, maxFiles = 2, append_flag = False, error = False\<rparr>
       (disk [(''vmware.log'', Regular (replicate 2147483647 (CHR ''a'')))])
   = Some (\<lparr>file_ptr = Some ''vmware.log'', path = ''vmware.log'', logSize = 0,
            maxSize = 3145728000, maxFiles = 2, append_flag = False, error = False\<rparr>,
           disk [(''vmware.log'', Regular []),
                 (''vmware.1.log'', Regular (replicate 2147483647 (CHR ''a'') @ ''x''))])"
  by (simp add: GlibUtils_CreateFileLogger_def log_eval path_eval open_eval disk_eval disk_def)

section \<open>C5: the index in a path without the index variable\<close>

text \<open>
  Claim C5 says that, with no \<^verbatim>\<open>${IDX}\<close> in the template and an index other than 0,
  the index goes before the last extension of the file name, where the file name starts
  after the last path separator and both \<open>/\<close> and \<open>\\<close> are separators. The source
  looks for the last \<open>/\<close> and turns to the last \<open>\\<close> only when the path has no \<open>/\<close>
  at all. For the path \<^verbatim>\<open>/var/log.d\app\<close> and index 1 the claim gives
  \<^verbatim>\<open>/var/log.d\app.1\<close> (the name \<^verbatim>\<open>app\<close> has no extension), the source gives
  \<^verbatim>\<open>/var/log.1.d\app\<close>.
\<close>

theorem FileLoggerGetPath_backslash_counterexample:
  "FileLoggerGetPath \<lparr>user = ''root'', pid = 1, win32 = False\<rparr>
     \<lparr>file_ptr = None, path = ''/var/log.d'' @ [backslash] @ ''app'', logSize = 0, maxSize = 0,
      maxFiles = 2, append_flag = True, error = False\<rparr> 1
   = Some (''/var/log.1.d'' @ [backslash] @ ''app'')
   \<and> spec_insert_index (''/var/log.d'' @ [backslash] @ ''app'') 1
     = ''/var/log.d'' @ [backslash] @ ''app.1''
   \<and> ''/var/log.1.d'' @ [backslash] @ ''app'' \<noteq> ''/var/log.d'' @ [backslash] @ ''app.1''"
  by (simp add: path_eval spec_insert_index_def after_last_def)

lemma expand_var_absent: "strstr s v = None \<Longrightarrow> expand_var v val s 0 False = Some (s, False)"
  by (subst expand_var.simps) simp

text \<open>
  Claim C5, amended. Whoever the user is, let the loop for \<^verbatim>\<open>${USER}\<close> end with the
  path \<open>p1\<close> (the template itself when it holds no \<^verbatim>\<open>${USER}\<close>: lemma
  \<open>expand_var_absent\<close>; the template with every \<^verbatim>\<open>${USER}\<close> replaced when no occurrence
  can overlap the user name: lemma \<open>expand_var_safe\<close>), let \<open>s\<close> be \<open>p1\<close> with every
  \<^verbatim>\<open>${PID}\<close> replaced by the process id, and let \<open>s\<close> hold no \<^verbatim>\<open>${IDX}\<close>. The
  separator is \<open>/\<close> if \<open>s\<close> has one, and \<open>\\<close> otherwise. Then
  \<^item> for index 0 the path is \<open>s\<close>;
  \<^item> for another index, if \<open>s\<close> is \<open>stem.ext\<close> where \<open>ext\<close> holds neither a dot nor the
    separator, the path is \<open>stem.index.ext\<close>;
  \<^item> for another index, if no dot follows the last separator of \<open>s\<close>, the path is
    \<open>s.index\<close>;
  \<^item> \<^verbatim>\<open>/var/log/app.log\<close> with index 2 gives \<^verbatim>\<open>/var/log/app.2.log\<close>, and \<^verbatim>\<open>/var/log/app\<close>
    with index 2 gives \<^verbatim>\<open>/var/log/app.2\<close>, whoever the user is.
\<close>

theorem FileLoggerGetPath_without_IDX:
  assumes "expand_var ''${USER}'' (user e) (path data) 0 False = Some (p1, f1)"
    and "s = spec_replace_all ''${PID}'' (print_u (pid e)) p1"
    and "strstr s ''${IDX}'' = None"
  shows "FileLoggerGetPath e data 0 = Some s
     \<and> (\<forall>index stem ext.
           index \<noteq> 0 \<and> s = stem @ ''.'' @ ext \<and> CHR ''.'' \<notin> set ext \<and> sep_char s \<notin> set ext \<longrightarrow>
           FileLoggerGetPath e data index = Some (stem @ ''.'' @ print_d index @ ''.'' @ ext))
     \<and> (\<forall>index.
           index \<noteq> 0 \<and> CHR ''.'' \<notin> set (after_last (sep_char s) s) \<longrightarrow>
           FileLoggerGetPath e data index = Some (s @ ''.'' @ print_d index))
     \<and> (\<forall>e'. FileLoggerGetPath e' (data\<lparr>path := ''/var/log/app.log''\<rparr>) 2
             = Some ''/var/log/app.2.log'')
     \<and> (\<forall>e'. FileLoggerGetPath e' (data\<lparr>path := ''/var/log/app''\<rparr>) 2
             = Some ''/var/log/app.2'')"
proof -
  have g: "FileLoggerGetPath e data index =
      Some (if index \<noteq> 0 then add_index s index else s)" for index
    using assms by (simp add: FileLoggerGetPath_user_pass finish_path_def)
  have "FileLoggerGetPath e data 0 = Some s"
    by (simp add: g)
  moreover have "FileLoggerGetPath e data index = Some (stem @ ''.'' @ print_d index @ ''.'' @ ext)"
    if "index \<noteq> 0 \<and> s = stem @ ''.'' @ ext \<and> CHR ''.'' \<notin> set ext \<and> sep_char s \<notin> set ext"
    for index stem ext
  proof -
    from that have a: "s = stem @ ''.'' @ ext" "CHR ''.'' \<notin> set ext" "sep_char s \<notin> set ext"
      and i: "index \<noteq> 0" by blast+
    from add_index_extension [OF a] i show ?thesis by (simp add: g)
  qed
  moreover have "FileLoggerGetPath e data index = Some (s @ ''.'' @ print_d index)"
    if "index \<noteq> 0 \<and> CHR ''.'' \<notin> set (after_last (sep_char s) s)" for index
  proof -
    from that have a: "CHR ''.'' \<notin> set (after_last (sep_char s) s)" and i: "index \<noteq> 0"
      by blast+
    from add_index_no_extension [OF a] i show ?thesis by (simp add: g)
  qed
  moreover have "FileLoggerGetPath e' (data\<lparr>path := ''/var/log/app.log''\<rparr>) 2
      = Some ''/var/log/app.2.log''" for e'
    by (simp add: path_eval)
  moreover have "FileLoggerGetPath e' (data\<lparr>path := ''/var/log/app''\<rparr>) 2
      = Some ''/var/log/app.2''" for e'
    by (simp add: path_eval)
  ultimately show ?thesis by blast
qed

text \<open>
  The witness: the user \<^verbatim>\<open>SYSTEM\<close>, a template with the user name and the process id;
  index 0, index 3 with an extension, and index 3 where the only dot is in a directory
  name.
\<close>

theorem FileLoggerGetPath_without_IDX_witness:
  "FileLoggerGetPath \<lparr>user = ''SYSTEM'', pid = 42, win32 = True\<rparr>
     \<lparr>file_ptr = None, path = ''/var/log/vmware-${USER}-${PID}.log'', logSize = 0, maxSize = 0,
      maxFiles = 4, append_flag = True, error = False\<rparr> 0
   = Some ''/var/log/vmware-SYSTEM-42.log''
   \<and> FileLoggerGetPath \<lparr>user = ''SYSTEM'', pid = 42, win32 = True\<rparr>
     \<lparr>file_ptr = None, path = ''/var/log/vmware-${USER}-${PID}.log'', logSize = 0, maxSize = 0,
      maxFiles = 4, append_flag = True, error = False\<rparr> 3
   = Some ''/var/log/vmware-SYSTEM-42.3.log''
   \<and> FileLoggerGetPath \<lparr>user = ''SYSTEM'', pid = 42, win32 = True\<rparr>
     \<lparr>file_ptr = None, path = ''/var/log.d/vmware-${USER}'', logSize = 0, maxSize = 0,
      maxFiles = 4, append_flag = True, error = False\<rparr> 3
   = Some ''/var/log.d/vmware-SYSTEM.3''"
proof -
  let ?e = "\<lparr>user = ''SYSTEM'', pid = 42, win32 = True\<rparr>"
  let ?l = "\<lparr>file_ptr = None, path = ''/var/log/vmware-${USER}-${PID}.log'', logSize = 0,
             maxSize = 0, maxFiles = 4, append_flag = True, error = False\<rparr>"
  let ?l' = "\<lparr>file_ptr = None, path = ''/var/log.d/vmware-${USER}'', logSize = 0,
             maxSize = 0, maxFiles = 4, append_flag = True, error = False\<rparr>"
  have u: "expand_var ''${USER}'' (user ?e) (path ?l) 0 False =
      Some (''/var/log/vmware-SYSTEM-${PID}.log'', True)"
    by (simp add: expand_var.simps)
  have u': "expand_var ''${USER}'' (user ?e) (path ?l') 0 False =
      Some (''/var/log.d/vmware-SYSTEM'', True)"
    by (simp add: expand_var.simps)
  have p42: "print_u 42 = ''42''" by (simp add: print_u.simps digit_char_def)
  have s: "''/var/log/vmware-SYSTEM-42.log'' =
      spec_replace_all ''${PID}'' (print_u (pid ?e)) ''/var/log/vmware-SYSTEM-${PID}.log''"
    by (simp add: p42)
  have n: "strstr ''/var/log/vmware-SYSTEM-42.log'' ''${IDX}'' = None" by simp
  note th = FileLoggerGetPath_without_IDX [OF u s n]
  have s': "''/var/log.d/vmware-SYSTEM'' =
      spec_replace_all ''${PID}'' (print_u (pid ?e)) ''/var/log.d/vmware-SYSTEM''"
    by (simp add: p42)
  have n': "strstr ''/var/log.d/vmware-SYSTEM'' ''${IDX}'' = None" by simp
  note th' = FileLoggerGetPath_without_IDX [OF u' s' n']
  have d3: "print_d 3 = ''3''" by (simp add: print_d_def print_u.simps digit_char_def)
  have a: "FileLoggerGetPath ?e ?l 0 = Some ''/var/log/vmware-SYSTEM-42.log''"
    using th by (rule conjunct1)
  have ext: "(3 :: int) \<noteq> 0 \<and>
      ''/var/log/vmware-SYSTEM-42.log'' = ''/var/log/vmware-SYSTEM-42'' @ ''.'' @ ''log'' \<and>
      CHR ''.'' \<notin> set ''log'' \<and> sep_char ''/var/log/vmware-SYSTEM-42.log'' \<notin> set ''log''"
    by (simp add: sep_char_def)
  have "FileLoggerGetPath ?e ?l 3 =
      Some (''/var/log/vmware-SYSTEM-42'' @ ''.'' @ print_d 3 @ ''.'' @ ''log'')"
    by (rule th [THEN conjunct2, THEN conjunct1, rule_format, OF ext])
  then have b: "FileLoggerGetPath ?e ?l 3 = Some ''/var/log/vmware-SYSTEM-42.3.log''"
    by (simp add: d3)
  have noext: "(3 :: int) \<noteq> 0 \<and>
      CHR ''.'' \<notin> set (after_last (sep_char ''/var/log.d/vmware-SYSTEM'')
                                    ''/var/log.d/vmware-SYSTEM'')"
    by (simp add: sep_char_def after_last_def)
  have "FileLoggerGetPath ?e ?l' 3 = Some (''/var/log.d/vmware-SYSTEM'' @ ''.'' @ print_d 3)"
    by (rule th' [THEN conjunct2, THEN conjunct2, THEN conjunct1, rule_format, OF noext])
  then have c: "FileLoggerGetPath ?e ?l' 3 = Some ''/var/log.d/vmware-SYSTEM.3''"
    by (simp add: d3)
  from a b c show ?thesis by simp
qed

section \<open>C6: replacing the variables\<close>

text \<open>
  Claim C6 says that for index 0 the path is the template with every occurrence of
  \<^verbatim>\<open>${USER}\<close>, \<^verbatim>\<open>${PID}\<close> and \<^verbatim>\<open>${IDX}\<close> replaced by the user name, the process id and
  0. The loop of the source resumes its search at the offset
  \<^verbatim>\<open>(start - last) + strlen(value)\<close>, counted from the start of the new string, where
  the end of the inserted value is at \<^verbatim>\<open>(start - logpath) + strlen(value)\<close>: from the
  second replacement on the search goes back into text that was already handled. With
  the user name \<^verbatim>\<open>$\<close> and the template \<^verbatim>\<open>${USER}${USER}{USER}\<close> the two occurrences
  replaced give \<^verbatim>\<open>$${USER}\<close>; the source reads the second inserted \<^verbatim>\<open>$\<close> again, takes it
  for the start of a third occurrence, and returns \<^verbatim>\<open>$$\<close>. With the user name \<^verbatim>\<open>R\<close>
  and the template \<^verbatim>\<open>xx${USE${USER}}${USER}\<close> it returns \<^verbatim>\<open>xxRR\<close> where the
  occurrences replaced give \<^verbatim>\<open>xx${USER}R\<close>. Nor does the source replace until no
  variable is left: in the first pass the offset is right, and with the user name
  \<^verbatim>\<open>$\<close> the template \<^verbatim>\<open>${USER}{USER}\<close> becomes \<^verbatim>\<open>${USER}\<close> and stays so. (For a
  user name that no occurrence of \<^verbatim>\<open>${USER}\<close> can overlap, the source and the claim
  agree: lemma \<open>FileLoggerGetPath_index_0\<close>. For the user name \<^verbatim>\<open>${USER}\<close> the loop
  may not end: lemma \<open>FileLoggerGetPath_hangs\<close>.)
\<close>

theorem FileLoggerGetPath_reads_value_again:
  "FileLoggerGetPath \<lparr>user = ''$'', pid = 1, win32 = False\<rparr>
     \<lparr>file_ptr = None, path = ''${USER}${USER}{USER}'', logSize = 0, maxSize = 0,
      maxFiles = 1, append_flag = True, error = False\<rparr> 0 = Some ''$$''
   \<and> spec_replace_all ''${IDX}'' ''0'' (spec_replace_all ''${PID}'' ''1''
        (spec_replace_all ''${USER}'' ''$'' ''${USER}${USER}{USER}'')) = ''$${USER}''
   \<and> FileLoggerGetPath \<lparr>user = ''R'', pid = 1, win32 = False\<rparr>
     \<lparr>file_ptr = None, path = ''xx${USE${USER}}${USER}'', logSize = 0, maxSize = 0,
      maxFiles = 1, append_flag = True, error = False\<rparr> 0 = Some ''xxRR''
   \<and> spec_replace_all ''${IDX}'' ''0'' (spec_replace_all ''${PID}'' ''1''
        (spec_replace_all ''${USER}'' ''R'' ''xx${USE${USER}}${USER}'')) = ''xx${USER}R''
   \<and> FileLoggerGetPath \<lparr>user = ''$'', pid = 1, win32 = False\<rparr>
     \<lparr>file_ptr = None, path = ''${USER}{USER}'', logSize = 0, maxSize = 0,
      maxFiles = 1, append_flag = True, error = False\<rparr> 0 = Some ''${USER}''"
  by (simp add: path_eval)

section \<open>C7: the error flag\<close>

lemma FileLoggerLog_error: "error logger \<Longrightarrow> FileLoggerLog e message logger w = Some (logger, w)"
  by (simp add: FileLoggerLog_def)

lemma FileLoggerLog_sets_error:
  assumes "\<not> error logger" and "file_ptr logger = None"
    and "FileLoggerOpen e logger w = Some (None, logger', w')"
  shows "FileLoggerLog e message logger w = Some (logger'\<lparr>file_ptr := None, error := True\<rparr>, w')"
  using assms by (simp add: FileLoggerLog_def open_if_needed_def)

text \<open>
  Claim C7: once the flag \<^verbatim>\<open>error\<close> of a logger is set, it stays set, and every later
  call of \<^verbatim>\<open>FileLoggerLog\<close> returns with no effect: after any number of calls the logger
  (its flag \<^verbatim>\<open>error\<close>, its \<^verbatim>\<open>NULL\<close> file, its size) and the disk are what they were,
  so no message is written and no file is opened or created.
\<close>

theorem FileLoggerLog_error_sticky:
  "error logger \<Longrightarrow> FileLoggerLog_all e messages logger w = Some (logger, w)"
  by (induction messages) (simp_all add: FileLoggerLog_error)

text \<open>
  The witness: the path cannot be opened, the first call fails to open the file and
  sets the flag; two more calls, made when the path could be opened, change nothing.
\<close>

theorem FileLoggerLog_error_sticky_witness:
  "FileLoggerLog \<lparr>user = ''root'', pid = 1, win32 = False\<rparr> ''first''
     \<lparr>file_ptr = None, path = ''/nodir/vmware.log'', logSize = 0, maxSize = 0, maxFiles = 1,
      append_flag = True, error = False\<rparr>
     \<lparr>files = Map.empty, denied = (\<lambda>p. True), full = False, bufsiz = 4096\<rparr>
   = Some (\<lparr>file_ptr = None, path = ''/nodir/vmware.log'', logSize = 0, maxSize = 0,
            maxFiles = 1, append_flag = True, error = True\<rparr>,
           \<lparr>files = Map.empty, denied = (\<lambda>p. True), full = False, bufsiz = 4096\<rparr>)
   \<and> FileLoggerLog_all \<lparr>user = ''root'', pid = 1, win32 = False\<rparr> [''second'', ''third'']
     \<lparr>file_ptr = None, path = ''/nodir/vmware.log'', logSize = 0, maxSize = 0, maxFiles = 1,
      append_flag = True, error = True\<rparr>
     (disk [])
   = Some (\<lparr>file_ptr = None, path = ''/nodir/vmware.log'', logSize = 0, maxSize = 0,
            maxFiles = 1, append_flag = True, error = True\<rparr>,
           disk [])"
proof -
  let ?l = "\<lparr>file_ptr = None, path = ''/nodir/vmware.log'', logSize = 0, maxSize = 0,
             maxFiles = 1, append_flag = True, error = True\<rparr>"
  have "error ?l" by simp
  from FileLoggerLog_error_sticky [OF this] show ?thesis
    by (simp add: log_eval path_eval open_eval disk_eval)
qed

section \<open>C8: the byte threshold\<close>

lemma CreateFileLogger_maxSize_small:
  "maxSize0 < 4096 \<Longrightarrow>
   map_option maxSize (GlibUtils_CreateFileLogger Some p a maxSize0 maxFiles0) =
     Some (maxSize0 * 1048576)"
  by (simp add: GlibUtils_CreateFileLogger_def)

text \<open>
  Claim C8 says that the byte threshold is the exact product of the configured number
  of megabytes and 1,048,576, for every configured value. The source forms the product
  in \<^verbatim>\<open>guint\<close> before it stores it in the \<^verbatim>\<open>guint64\<close> field: at 4096 megabytes the
  threshold is 0 (which stands for "no limit"), not 4,294,967,296.
\<close>

theorem CreateFileLogger_maxSize_4096:
  "map_option maxSize (GlibUtils_CreateFileLogger Some ''vmware.log'' True 4096 0) = Some 0
   \<and> (4096 :: nat) * 1048576 = 4294967296"
  by (simp add: GlibUtils_CreateFileLogger_def)

section \<open>C9: the second test under the writer lock\<close>

text \<open>
  Claim C9 is about threads that race from the reader lock to the writer lock; the
  model runs one call at a time and has no lock. What it keeps is the second test that
  each thread makes once it holds the writer lock: a thread that finds the file open,
  or the size below the limit, leaves the logger and the disk as they are.
\<close>

lemma open_if_needed_open:
  "file_ptr logger \<noteq> None \<Longrightarrow> open_if_needed e logger w = Some (logger, w)"
  by (auto simp: open_if_needed_def)

lemma reopen_if_full_below:
  "\<not> maxSize logger \<le> to_guint64 (logSize logger) \<Longrightarrow>
   reopen_if_full e logger w h buf = Some (logger, w)"
  by (simp add: reopen_if_full_def)

section \<open>C10: opening a path that does not exist\<close>

text \<open>
  Claim C10: when the index-0 path does not exist, \<^verbatim>\<open>FileLoggerOpen\<close> does nothing but
  open it, in the mode that the flag \<^verbatim>\<open>append\<close> selects. The logger is returned as it
  was (the size counter keeps its value, whatever it is, and the flag \<^verbatim>\<open>append\<close> is
  not changed), no file is renamed or removed, and the only change on the disk is the
  new empty file, made unless the open fails.
\<close>

theorem FileLoggerOpen_missing_file:
  assumes "FileLoggerGetPath e data 0 = Some p" and "files w p = None"
  shows "FileLoggerOpen e data w =
           Some (fst (g_fopen w p (if append_flag data then ModeA else ModeW)), data,
                 snd (g_fopen w p (if append_flag data then ModeA else ModeW)))
         \<and> FileLoggerOpen e data w =
           Some (if denied w p then (None, data, w)
                 else (Some p, data, w\<lparr>files := (files w)(p \<mapsto> Regular [])\<rparr>))"
  using assms
  by (simp add: FileLoggerOpen_def g_file_test_exists_def g_fopen_def split: prod.splits)

theorem FileLoggerOpen_missing_file_witness:
  "FileLoggerGetPath \<lparr>user = ''root'', pid = 1, win32 = False\<rparr>
     \<lparr>file_ptr = None, path = ''vmware-${USER}.log'', logSize = 77, maxSize = 50,
      maxFiles = 3, append_flag = True, error = False\<rparr> 0 = Some ''vmware-root.log''
   \<and> files (disk [(''vmware-root.1.log'', Regular ''old'')]) ''vmware-root.log'' = None
   \<and> FileLoggerOpen \<lparr>user = ''root'', pid = 1, win32 = False\<rparr>
     \<lparr>file_ptr = None, path = ''vmware-${USER}.log'', logSize = 77, maxSize = 50,
      maxFiles = 3, append_flag = True, error = False\<rparr>
     (disk [(''vmware-root.1.log'', Regular ''old'')])
   = Some (Some ''vmware-root.log'',
      \<lparr>file_ptr = None, path = ''vmware-${USER}.log'', logSize = 77, maxSize = 50,
       maxFiles = 3, append_flag = True, error = False\<rparr>,
      disk [(''vmware-root.log'', Regular []), (''vmware-root.1.log'', Regular ''old'')])"
proof -
  let ?e = "\<lparr>user = ''root'', pid = 1, win32 = False\<rparr>"
  let ?l = "\<lparr>file_ptr = None, path = ''vmware-${USER}.log'', logSize = 77, maxSize = 50,
             maxFiles = 3, append_flag = True, error = False\<rparr>"
  let ?w = "disk [(''vmware-root.1.log'', Regular ''old'')]"
  have p: "FileLoggerGetPath ?e ?l 0 = Some ''vmware-root.log''"
    by (simp add: path_eval)
  have f: "files ?w ''vmware-root.log'' = None"
    by (simp add: disk_def)
  from FileLoggerOpen_missing_file [OF p f, THEN conjunct2] p f show ?thesis
    by (simp add: disk_def)
qed

end
